theory Spec2Isabelle
  imports Main "HOL-Library.Sublist" "HOL-Library.Multiset"
begin

section \<open>Exceptions\<close>

text \<open>
  The Python exceptions that the modelled functions raise or catch. A function that can
  raise returns \<open>exn + 'a\<close>, with \<open>Inl\<close> for the raised exception.
  \<open>StorageFailure\<close> and \<open>NotFound\<close> are the two classes of
  \<^verbatim>\<open>taskflow.exceptions\<close> that \<^verbatim>\<open>_cached_get\<close> catches;
  \<open>Exception msg\<close> stands for any exception of another class.
\<close>

datatype exn =
    KeyError
  | ValueError
  | TypeError
  | AssertionError
  | ImportError
  | NetworkXError
  | StorageFailure
  | NotFound
  | Exception string

section \<open>taskflow/test.py: assertIsSuperAndSubsequence\<close>

text \<open>
  \<^verbatim>\<open>list.index(x)\<close>: the position of the first element equal to \<open>x\<close>,
  \<^verbatim>\<open>ValueError\<close> when there is none.
\<close>

fun list_index :: "'a list \<Rightarrow> 'a \<Rightarrow> exn + nat" where
  "list_index [] x = Inl ValueError"
| "list_index (y # ys) x =
     (if y = x then Inr 0
      else (case list_index ys x of Inl e \<Rightarrow> Inl e | Inr i \<Rightarrow> Inr (Suc i)))"

text \<open>
  The \<^verbatim>\<open>for sub_elem in sub_seq\<close> loop of
  \<^verbatim>\<open>TestCase.assertIsSuperAndSubsequence\<close>, on the current tail and the
  elements of \<^verbatim>\<open>sub_seq\<close> still to be matched. \<^verbatim>\<open>self.fail(msg)\<close>
  raises \<^verbatim>\<open>AssertionError\<close>; \<^verbatim>\<open>current_tail[super_index + 1:]\<close> is
  \<open>drop (super_index + 1) current_tail\<close>.
\<close>

fun subsequence_loop :: "'a list \<Rightarrow> 'a list \<Rightarrow> exn + unit" where
  "subsequence_loop current_tail [] = Inr ()"
| "subsequence_loop current_tail (sub_elem # rest) =
     (case list_index current_tail sub_elem of
        Inl e \<Rightarrow> Inl AssertionError
      | Inr super_index \<Rightarrow> subsequence_loop (drop (super_index + 1) current_tail) rest)"

definition assertIsSuperAndSubsequence :: "'a list \<Rightarrow> 'a list \<Rightarrow> exn + unit" where
  "assertIsSuperAndSubsequence super_seq sub_seq = subsequence_loop super_seq sub_seq"

section \<open>taskflow/formatters.py: _cached_get\<close>

text \<open>
  A cached entry is the pair \<^verbatim>\<open>(value, value_found)\<close>; \<open>None\<close> is Python's
  \<^verbatim>\<open>None\<close>. The cache is a dictionary of dictionaries, from cache kind to atom
  name. A fetch function runs on the storage state \<open>'s\<close>: it returns a value or
  raises, and leaves a storage state behind, so that a call that is made can be told
  from one that is not.
\<close>

type_synonym 'v cached = "'v option \<times> bool"

type_synonym 'v cache = "string \<rightharpoonup> (string \<rightharpoonup> 'v cached)"

type_synonym ('s, 'v) fetch = "'s \<Rightarrow> (exn + 'v option) \<times> 's"

text \<open>
  \<^verbatim>\<open>cache[cache_key][atom_name]\<close> as an expression: \<open>None\<close> is
  \<^verbatim>\<open>KeyError\<close>, from either of the two lookups.
\<close>

definition cache_lookup :: "'v cache \<Rightarrow> string \<Rightarrow> string \<Rightarrow> 'v cached option" where
  "cache_lookup cache cache_key atom_name =
     (case cache cache_key of None \<Rightarrow> None | Some d \<Rightarrow> d atom_name)"

text \<open>
  \<^verbatim>\<open>cache[cache_key][atom_name] = value, value_found\<close> followed by
  \<^verbatim>\<open>return value, value_found\<close> (lines 36 and 37): the lookup of
  \<^verbatim>\<open>cache[cache_key]\<close> raises \<^verbatim>\<open>KeyError\<close> when the cache has no
  dictionary of that kind.
\<close>

definition cache_store ::
  "'v cache \<Rightarrow> string \<Rightarrow> string \<Rightarrow> 'v cached \<Rightarrow> 's \<Rightarrow> (exn + 'v cached) \<times> 'v cache \<times> 's" where
  "cache_store cache cache_key atom_name entry s =
     (case cache cache_key of
        None \<Rightarrow> (Inl KeyError, cache, s)
      | Some d \<Rightarrow> (Inr entry, cache(cache_key \<mapsto> d(atom_name \<mapsto> entry)), s))"

text \<open>
  \<^verbatim>\<open>_cached_get(cache, cache_key, atom_name, fetch_func, *args, **kwargs)\<close>;
  \<open>fetch_func\<close> stands for the call \<^verbatim>\<open>fetch_func(*args, **kwargs)\<close>.
  The result is the returned pair or the exception raised, the cache and the storage
  state after the call.
\<close>

definition cached_get ::
  "'v cache \<Rightarrow> string \<Rightarrow> string \<Rightarrow> ('s, 'v) fetch \<Rightarrow> 's
     \<Rightarrow> (exn + 'v cached) \<times> 'v cache \<times> 's" where
  "cached_get cache cache_key atom_name fetch_func s =
     (case cache_lookup cache cache_key atom_name of
        Some (value, value_found) \<Rightarrow> (Inr (value, value_found), cache, s)
      | None \<Rightarrow>
          (case fetch_func s of
             (Inr value, s') \<Rightarrow> cache_store cache cache_key atom_name (value, True) s'
           | (Inl e, s') \<Rightarrow>
               if e = StorageFailure \<or> e = NotFound
               then cache_store cache cache_key atom_name (None, False) s'
               else (Inl e, cache, s')))"

text \<open>
  A sequence of calls of \<^verbatim>\<open>_cached_get\<close> on one cache, each with its own
  cache kind, atom name and fetch function; what the calls return is dropped.
\<close>

fun cached_gets ::
  "'v cache \<Rightarrow> (string \<times> string \<times> ('s, 'v) fetch) list \<Rightarrow> 's \<Rightarrow> 'v cache \<times> 's" where
  "cached_gets cache [] s = (cache, s)"
| "cached_gets cache ((cache_key, atom_name, fetch_func) # calls) s =
     (case cached_get cache cache_key atom_name fetch_func s of
        (r, cache', s') \<Rightarrow> cached_gets cache' calls s')"

text \<open>
  The storage state of the examples: the number of calls of the fetch function so far.
  \<open>failing_fetch\<close> raises \<^verbatim>\<open>StorageFailure\<close> on every call,
  \<open>broken_fetch\<close> an exception of another class, \<open>const_fetch v\<close> returns
  \<open>v\<close>.
\<close>

definition failing_fetch :: "(nat, 'v) fetch" where
  "failing_fetch calls = (Inl StorageFailure, Suc calls)"

definition broken_fetch :: "(nat, 'v) fetch" where
  "broken_fetch calls = (Inl (Exception ''boom''), Suc calls)"

definition const_fetch :: "'v \<Rightarrow> (nat, 'v) fetch" where
  "const_fetch v calls = (Inr (Some v), Suc calls)"

definition empty_cache :: "'v cache" where
  "empty_cache =
     [''intentions'' \<mapsto> Map.empty, ''provides'' \<mapsto> Map.empty,
      ''requires'' \<mapsto> Map.empty, ''states'' \<mapsto> Map.empty]"

section \<open>taskflow/formatters.py: FailureFormatter._format_node\<close>

text \<open>
  The attributes of an atom that \<^verbatim>\<open>_format_node\<close> reads, and the four methods
  of the storage object that it passes to \<^verbatim>\<open>_cached_get\<close>.
  \<^verbatim>\<open>fetch_mapped_args\<close> takes the atom's rebind map, its name and its optional
  arguments.
\<close>

record ('r, 'o) atom =
  name :: string
  rebind :: 'r
  optional :: 'o

record ('s, 'v, 'r, 'o) storage =
  get_atom_intention :: "string \<Rightarrow> ('s, 'v) fetch"
  get_atom_state :: "string \<Rightarrow> ('s, 'v) fetch"
  fetch_mapped_args :: "'r \<Rightarrow> string \<Rightarrow> 'o \<Rightarrow> ('s, 'v) fetch"
  get_execute_result :: "string \<Rightarrow> ('s, 'v) fetch"

text \<open>The dictionary \<^verbatim>\<open>atom_attrs\<close>.\<close>

type_synonym 'v attrs = "string \<rightharpoonup> 'v option"

text \<open>
  Lines 85 to 98, the body of \<^verbatim>\<open>if atom_name not in self._hide_inputs_outputs_of\<close>:
  the two cached reads of the atom's inputs and outputs. An exception that
  \<^verbatim>\<open>_cached_get\<close> raises ends the function.
\<close>

definition inputs_outputs ::
  "('s, 'v, 'r, 'o) storage \<Rightarrow> 'v cache \<Rightarrow> ('r, 'o) atom \<Rightarrow> 'v attrs \<Rightarrow> 's
     \<Rightarrow> (exn + 'v attrs) \<times> 'v cache \<times> 's" where
  "inputs_outputs storage cache atom atom_attrs s =
     (case cached_get cache ''requires'' (name atom)
             (fetch_mapped_args storage (rebind atom) (name atom) (optional atom)) s of
        (Inl e, cache1, s1) \<Rightarrow> (Inl e, cache1, s1)
      | (Inr (requires, requires_found), cache1, s1) \<Rightarrow>
          (let atom_attrs1 =
                 (if requires_found then atom_attrs(''requires'' \<mapsto> requires) else atom_attrs)
           in case cached_get cache1 ''provides'' (name atom)
                     (get_execute_result storage (name atom)) s1 of
                (Inl e, cache2, s2) \<Rightarrow> (Inl e, cache2, s2)
              | (Inr (provides, provides_found), cache2, s2) \<Rightarrow>
                  (Inr (if provides_found then atom_attrs1(''provides'' \<mapsto> provides)
                        else atom_attrs1), cache2, s2)))"

text \<open>
  Lines 68 to 98: the dictionary \<^verbatim>\<open>atom_attrs\<close> that \<^verbatim>\<open>_format_node\<close>
  builds for a node whose item is \<open>atom\<close>; \<open>hide\<close> is
  \<^verbatim>\<open>self._hide_inputs_outputs_of\<close>.
\<close>

definition node_attrs ::
  "string set \<Rightarrow> ('s, 'v, 'r, 'o) storage \<Rightarrow> 'v cache \<Rightarrow> ('r, 'o) atom \<Rightarrow> 's
     \<Rightarrow> (exn + 'v attrs) \<times> 'v cache \<times> 's" where
  "node_attrs hide storage cache atom s =
     (case cached_get cache ''intentions'' (name atom)
             (get_atom_intention storage (name atom)) s of
        (Inl e, cache1, s1) \<Rightarrow> (Inl e, cache1, s1)
      | (Inr (intention, intention_found), cache1, s1) \<Rightarrow>
          (let atom_attrs1 =
                 (if intention_found then [''intention'' \<mapsto> intention] else Map.empty)
           in case cached_get cache1 ''states'' (name atom)
                     (get_atom_state storage (name atom)) s1 of
                (Inl e, cache2, s2) \<Rightarrow> (Inl e, cache2, s2)
              | (Inr (state, state_found), cache2, s2) \<Rightarrow>
                  (let atom_attrs2 =
                         (if state_found then atom_attrs1(''state'' \<mapsto> state) else atom_attrs1)
                   in if name atom \<notin> hide
                      then inputs_outputs storage cache2 atom atom_attrs2 s2
                      else (Inr atom_attrs2, cache2, s2))))"

text \<open>
  Lines 99 to 102. \<open>str_of\<close> is Python's formatting of a dictionary with
  \<^verbatim>\<open>%s\<close>; an empty dictionary is false.
\<close>

definition render_atom :: "('v attrs \<Rightarrow> string) \<Rightarrow> string \<Rightarrow> 'v attrs \<Rightarrow> string" where
  "render_atom str_of atom_name atom_attrs =
     (if atom_attrs \<noteq> Map.empty
      then ''Atom '' @ [CHR 0x27] @ atom_name @ [CHR 0x27] @ '' '' @ str_of atom_attrs
      else ''Atom '' @ [CHR 0x27] @ atom_name @ [CHR 0x27])"

text \<open>\<^verbatim>\<open>FailureFormatter._format_node(self, storage, cache, node)\<close>.\<close>

definition format_node ::
  "string set \<Rightarrow> ('v attrs \<Rightarrow> string) \<Rightarrow> ('s, 'v, 'r, 'o) storage \<Rightarrow> 'v cache
     \<Rightarrow> ('r, 'o) atom \<Rightarrow> 's \<Rightarrow> (exn + string) \<times> 'v cache \<times> 's" where
  "format_node hide str_of storage cache atom s =
     (case node_attrs hide storage cache atom s of
        (Inl e, cache', s') \<Rightarrow> (Inl e, cache', s')
      | (Inr atom_attrs, cache', s') \<Rightarrow>
          (Inr (render_atom str_of (name atom) atom_attrs), cache', s'))"

text \<open>
  A storage for the examples. Its state is the list of the calls made, latest first;
  the intention and the state of every atom are found, its inputs and outputs are
  whatever \<open>secret\<close> is.
\<close>

definition logging_storage :: "string \<Rightarrow> (string list, string, unit, unit) storage" where
  "logging_storage secret =
     \<lparr> get_atom_intention = (\<lambda>n log. (Inr (Some ''EXECUTE''), ''get_atom_intention'' # log)),
       get_atom_state = (\<lambda>n log. (Inr (Some ''FAILURE''), ''get_atom_state'' # log)),
       fetch_mapped_args = (\<lambda>r n opt log. (Inr (Some secret), ''fetch_mapped_args'' # log)),
       get_execute_result = (\<lambda>n log. (Inr (Some secret), ''get_execute_result'' # log)) \<rparr>"

definition bye_atom :: "(unit, unit) atom" where
  "bye_atom = \<lparr> name = ''bye'', rebind = (), optional = () \<rparr>"

section \<open>taskflow/formatters.py: _fetch_predecessor_tree\<close>

text \<open>
  The execution graph is a \<^verbatim>\<open>networkx\<close> directed graph. It is given by its
  predecessor table: each node with the list of its predecessors, in the order in which
  \<^verbatim>\<open>graph.predecessors_iter(node)\<close> yields them. For a node that is not in the
  graph \<^verbatim>\<open>predecessors_iter\<close> raises \<^verbatim>\<open>NetworkXError\<close>.
\<close>

type_synonym 'a graph = "('a \<times> 'a list) list"

definition predecessors_iter :: "'a graph \<Rightarrow> 'a \<Rightarrow> exn + 'a list" where
  "predecessors_iter graph node =
     (case map_of graph node of None \<Rightarrow> Inl NetworkXError | Some preds \<Rightarrow> Inr preds)"

text \<open>
  Modelled from the spec: \<^verbatim>\<open>taskflow.types.tree.Node\<close> is not among the source
  files; the spec names it as the rooted tree of the graph and tree primitives. A node
  holds an item and the ordered list of its children; \<^verbatim>\<open>Node(item)\<close> makes a
  node without children and \<^verbatim>\<open>parent.add(child)\<close> appends \<open>child\<close> to the
  children of \<open>parent\<close>. Nodes are mutable objects shared between the tree and the
  work stack, so they live in a store: the list of all nodes made so far, a node being
  named by its position there.
\<close>

record 'a tree_node =
  item :: 'a
  children :: "nat list"

text \<open>
  Modelled from the spec: \<^verbatim>\<open>tree.Node(item)\<close> of the missing
  \<^verbatim>\<open>tree.Node\<close>: a new node without children, at the end of the store.
\<close>

definition new_node :: "'a tree_node list \<Rightarrow> 'a \<Rightarrow> 'a tree_node list \<times> nat" where
  "new_node ns x = (ns @ [\<lparr> item = x, children = [] \<rparr>], length ns)"

text \<open>
  Modelled from the spec: \<^verbatim>\<open>parent.add(child)\<close> of the missing
  \<^verbatim>\<open>tree.Node\<close>: the child is appended to the children of the parent.
\<close>

definition add_child :: "'a tree_node list \<Rightarrow> nat \<Rightarrow> nat \<Rightarrow> 'a tree_node list" where
  "add_child ns parent child =
     ns[parent := (ns ! parent)\<lparr>children := children (ns ! parent) @ [child]\<rparr>]"

text \<open>
  The variables of the loop of \<^verbatim>\<open>_fetch_predecessor_tree\<close>: the store of tree
  nodes, the work stack of pairs \<^verbatim>\<open>(parent, node)\<close> with its top at the end of
  the list, as in Python, and the set \<^verbatim>\<open>seen\<close>.
\<close>

record 'a walk =
  nodes :: "'a tree_node list"
  stack :: "(nat \<times> 'a) list"
  seen :: "'a set"

text \<open>Lines 48 to 51, the body of \<^verbatim>\<open>for pred_node in ...\<close>.\<close>

definition visit :: "nat \<Rightarrow> 'a walk \<Rightarrow> 'a \<Rightarrow> 'a walk" where
  "visit parent st pred_node =
     (case new_node (nodes st) pred_node of
        (ns, child) \<Rightarrow>
          \<lparr> nodes = add_child ns parent child,
            stack = stack st @ [(child, pred_node)],
            seen = insert pred_node (seen st) \<rparr>)"

fun visit_all :: "nat \<Rightarrow> 'a walk \<Rightarrow> 'a list \<Rightarrow> 'a walk" where
  "visit_all parent st [] = st"
| "visit_all parent st (pred_node # rest) = visit_all parent (visit parent st pred_node) rest"

text \<open>
  Lines 45 to 51, \<^verbatim>\<open>while stack\<close>. The loop need not end, so the result is an
  option: \<open>None\<close> when it runs forever, the raised exception or the final variables
  otherwise.
\<close>

partial_function (option) walk_loop :: "'a graph \<Rightarrow> 'a walk \<Rightarrow> (exn + 'a walk) option" where
  "walk_loop graph st =
     (if stack st = [] then Some (Inr st)
      else
        (case last (stack st) of
           (parent, node) \<Rightarrow>
             (case predecessors_iter graph node of
                Inl e \<Rightarrow> Some (Inl e)
              | Inr preds \<Rightarrow>
                  walk_loop graph (visit_all parent (st\<lparr>stack := butlast (stack st)\<rparr>) preds))))"

declare walk_loop.simps [code]

text \<open>
  \<^verbatim>\<open>_fetch_predecessor_tree(graph, atom)\<close>. The returned pair is
  \<^verbatim>\<open>len(seen)\<close> and the root: the position of the root node, 0, with the store
  that holds the tree.
\<close>

definition fetch_predecessor_tree ::
  "'a graph \<Rightarrow> 'a \<Rightarrow> (exn + nat \<times> nat \<times> 'a tree_node list) option" where
  "fetch_predecessor_tree graph atom =
     (case new_node [] atom of
        (ns, root) \<Rightarrow>
          (case walk_loop graph \<lparr> nodes = ns, stack = [(root, atom)], seen = {} \<rparr> of
             None \<Rightarrow> None
           | Some (Inl e) \<Rightarrow> Some (Inl e)
           | Some (Inr st) \<Rightarrow> Some (Inr (card (seen st), root, nodes st))))"

text \<open>
  The edges of the graph as a relation, from predecessor to node; the transitive
  predecessors of a node; the nodes of the graph; and the invariant of a
  \<^verbatim>\<open>networkx\<close> graph that every predecessor of a node is a node.
\<close>

definition pred_rel :: "'a graph \<Rightarrow> ('a \<times> 'a) set" where
  "pred_rel graph = {(p, n). \<exists>preds. map_of graph n = Some preds \<and> p \<in> set preds}"

definition transitive_predecessors :: "'a graph \<Rightarrow> 'a \<Rightarrow> 'a set" where
  "transitive_predecessors graph a = {p. (p, a) \<in> (pred_rel graph)\<^sup>+}"

definition graph_nodes :: "'a graph \<Rightarrow> 'a set" where
  "graph_nodes graph = fst ` set graph"

definition graph_ok :: "'a graph \<Rightarrow> bool" where
  "graph_ok graph = list_all (\<lambda>(n, preds). list_all (\<lambda>p. p \<in> graph_nodes graph) preds) graph"

text \<open>
  The nodes of the tree below a root: the root, and the children of its nodes. The
  items of the tree are the items of these nodes.
\<close>

inductive in_tree :: "'a tree_node list \<Rightarrow> nat \<Rightarrow> nat \<Rightarrow> bool" for ns root where
  in_tree_root: "in_tree ns root root"
| in_tree_child:
    "in_tree ns root i \<Longrightarrow> i < length ns \<Longrightarrow> c \<in> set (children (ns ! i)) \<Longrightarrow> in_tree ns root c"

code_pred in_tree .

definition tree_items :: "'a tree_node list \<Rightarrow> nat \<Rightarrow> 'a set" where
  "tree_items ns root = {item (ns ! i) | i. in_tree ns root i \<and> i < length ns}"

text \<open>
  The invariants of the loop for the walk from atom \<open>a\<close>. For the tree: the root is
  node 0 and holds \<open>a\<close>, every node of the store is in the tree, the parents on the
  stack are nodes of the store, and the items of the nodes are \<open>a\<close> and the atoms
  seen. For the sets: the atoms seen are transitive predecessors of \<open>a\<close>, the atoms
  on the stack are \<open>a\<close> or such predecessors, and an atom that was reached and is
  not on the stack has all its predecessors seen.
\<close>

definition tree_inv :: "'a \<Rightarrow> 'a walk \<Rightarrow> bool" where
  "tree_inv a st =
     (nodes st \<noteq> [] \<and> item (nodes st ! 0) = a
      \<and> (\<forall>i<length (nodes st). in_tree (nodes st) 0 i)
      \<and> (\<forall>e\<in>set (stack st). fst e < length (nodes st))
      \<and> item ` set (nodes st) = insert a (seen st))"

definition closure_inv :: "'a graph \<Rightarrow> 'a \<Rightarrow> 'a walk \<Rightarrow> bool" where
  "closure_inv graph a st =
     (seen st \<subseteq> transitive_predecessors graph a
      \<and> snd ` set (stack st) \<subseteq> insert a (transitive_predecessors graph a)
      \<and> (\<forall>x\<in>insert a (seen st).
            x \<in> snd ` set (stack st) \<or> (\<forall>p. (p, x) \<in> pred_rel graph \<longrightarrow> p \<in> seen st)))"

text \<open>
  Graphs for the examples: \<open>diamond\<close> has the edges 0 to 1, 0 to 2, 1 to 2 and 2 to
  3; \<open>self_loop\<close> has one node with an edge to itself.
\<close>

definition diamond :: "nat graph" where
  "diamond = [(3, [2]), (2, [0, 1]), (1, [0]), (0, [])]"

definition self_loop :: "nat graph" where
  "self_loop = [(0, [0])]"

section \<open>taskflow/utils/async_utils.py: wait_for_any\<close>

text \<open>
  The states of a \<^verbatim>\<open>concurrent.futures\<close> future, and the two of them that
  \<^verbatim>\<open>DONE_STATES\<close> holds.
\<close>

datatype future_state = PENDING | RUNNING | CANCELLED | CANCELLED_AND_NOTIFIED | FINISHED


text \<open>
  A future object: \<^verbatim>\<open>_state\<close>, the list \<^verbatim>\<open>_waiters\<close> (waiter objects, by
  identity) and whether it is an instance of \<^verbatim>\<open>eu.GreenFuture\<close>. Futures and
  waiters are objects, named by numbers. The world holds every future object and the
  identity that the next \<^verbatim>\<open>_Waiter\<close> object created gets.
\<close>

record future =
  f_state :: future_state
  f_waiters :: "nat list"
  is_green :: bool

record world =
  futures :: "nat \<Rightarrow> future"
  next_waiter :: nat




text \<open>\<^verbatim>\<open>for f in fs: f._waiters.append(waiter)\<close>.\<close>

fun append_waiter :: "world \<Rightarrow> nat list \<Rightarrow> nat \<Rightarrow> world" where
  "append_waiter w [] waiter = w"
| "append_waiter w (f # fs) waiter =
     append_waiter
       (w\<lparr>futures := (futures w)
            (f := (futures w f)\<lparr>f_waiters := f_waiters (futures w f) @ [waiter]\<rparr>)\<rparr>)
       fs waiter"



text \<open>
  The world in which \<^verbatim>\<open>wait_for_any\<close> calls \<^verbatim>\<open>waiter.event.wait\<close>: a new
  waiter object is created and appended to the waiters of every future of \<open>fs\<close>.
\<close>

definition register :: "world \<Rightarrow> nat list \<Rightarrow> world" where
  "register w fs = append_waiter (w\<lparr>next_waiter := Suc (next_waiter w)\<rparr>) fs (next_waiter w)"






section \<open>taskflow/engines/worker_based/worker.py: Worker._derive_endpoints\<close>

text \<open>
  The objects that can stand in the tasks list: a string, a module, a class, or an
  object of any other type. What the function takes from outside the file is a
  parameter, the loader: \<^verbatim>\<open>importutils.import_module\<close> and
  \<^verbatim>\<open>importutils.import_class\<close>, which return what they import or raise
  (\<^verbatim>\<open>ImportError\<close>), \<^verbatim>\<open>inspect.getmembers\<close> of a module, and which
  classes are subclasses of \<^verbatim>\<open>BaseTask\<close>. \<^verbatim>\<open>reflection.is_subclass\<close> holds
  of a class that is such a subclass and of no other object.
\<close>

datatype ('m, 'c) pyobj = Str string | Module 'm | Class 'c | Object

record ('m, 'c) loader =
  import_module :: "string \<Rightarrow> exn + 'm"
  import_class :: "string \<Rightarrow> exn + ('m, 'c) pyobj"
  getmembers :: "'m \<Rightarrow> (string \<times> ('m, 'c) pyobj) list"
  is_task :: "'c \<Rightarrow> bool"

definition is_subclass :: "('m, 'c) loader \<Rightarrow> ('m, 'c) pyobj \<Rightarrow> bool" where
  "is_subclass env obj = (case obj of Class c \<Rightarrow> is_task env c | _ \<Rightarrow> False)"

text \<open>
  Modelled from the spec: \<^verbatim>\<open>endpoint.Endpoint\<close> is not among the source files;
  the spec has a worker find the locally registered Endpoint of an atom. An endpoint
  is made from a task class and holds it.
\<close>

datatype ('m, 'c) endpoint = Endpoint "('m, 'c) pyobj"

text \<open>
  \<^verbatim>\<open>s.split(sep)\<close> for a separator of one character, and the unpacking
  \<^verbatim>\<open>pkg, cls = ...\<close>, which raises \<^verbatim>\<open>ValueError\<close> unless the list has
  exactly two elements.
\<close>

fun split_on :: "char \<Rightarrow> string \<Rightarrow> string list" where
  "split_on sep [] = [[]]"
| "split_on sep (c # cs) =
     (if c = sep then [] # split_on sep cs
      else (case split_on sep cs of [] \<Rightarrow> [[c]] | w # ws \<Rightarrow> (c # w) # ws))"

definition unpack_pair :: "'a list \<Rightarrow> exn + 'a \<times> 'a" where
  "unpack_pair xs = (case xs of [a, b] \<Rightarrow> Inr (a, b) | _ \<Rightarrow> Inl ValueError)"

text \<open>
  The set \<^verbatim>\<open>derived_tasks\<close> is kept as a list without repetitions, in the order
  of first insertion; \<^verbatim>\<open>derived_tasks.add(obj)\<close> is \<open>set_add\<close>. Python does
  not fix the order in which a set is iterated, and nothing below depends on it.
\<close>

definition set_add :: "'a \<Rightarrow> 'a list \<Rightarrow> 'a list" where
  "set_add x xs = (if x \<in> set xs then xs else xs @ [x])"

text \<open>Lines 111 to 113, \<^verbatim>\<open>for name, obj in inspect.getmembers(module)\<close>.\<close>

fun derive_members ::
  "('m, 'c) loader \<Rightarrow> ('m, 'c) pyobj list \<Rightarrow> (string \<times> ('m, 'c) pyobj) list
     \<Rightarrow> ('m, 'c) pyobj list" where
  "derive_members env derived_tasks [] = derived_tasks"
| "derive_members env derived_tasks ((member_name, obj) # members) =
     derive_members env
       (if is_subclass env obj then set_add obj derived_tasks else derived_tasks) members"

text \<open>
  Lines 89 to 113, the body of \<^verbatim>\<open>for item in tasks\<close>: the chain of type tests,
  which yields the variable \<^verbatim>\<open>module\<close> (\<open>None\<close> or a module) and the set, and
  then the members of the module.
\<close>

definition derive_item ::
  "('m, 'c) loader \<Rightarrow> ('m, 'c) pyobj list \<Rightarrow> ('m, 'c) pyobj \<Rightarrow> exn + ('m, 'c) pyobj list" where
  "derive_item env derived_tasks task_item =
     (case
        (case task_item of
           Str s \<Rightarrow>
             (case unpack_pair (split_on CHR '':'' s) of
                Inl e \<Rightarrow>
                  (case import_module env s of
                     Inl e' \<Rightarrow> Inl e'
                   | Inr m \<Rightarrow> Inr (Some m, derived_tasks))
              | Inr (pkg, cls) \<Rightarrow>
                  (case import_class env (pkg @ ''.'' @ cls) of
                     Inl e' \<Rightarrow> Inl e'
                   | Inr obj \<Rightarrow>
                       if \<not> is_subclass env obj then Inl TypeError
                       else Inr (None, set_add obj derived_tasks)))
         | Module m \<Rightarrow> Inr (Some m, derived_tasks)
         | _ \<Rightarrow>
             if is_subclass env task_item then Inr (None, set_add task_item derived_tasks)
             else Inl TypeError)
      of
        Inl e \<Rightarrow> Inl e
      | Inr (None, derived_tasks') \<Rightarrow> Inr derived_tasks'
      | Inr (Some m, derived_tasks') \<Rightarrow>
          Inr (derive_members env derived_tasks' (getmembers env m)))"

fun derive_loop ::
  "('m, 'c) loader \<Rightarrow> ('m, 'c) pyobj list \<Rightarrow> ('m, 'c) pyobj list \<Rightarrow> exn + ('m, 'c) pyobj list" where
  "derive_loop env derived_tasks [] = Inr derived_tasks"
| "derive_loop env derived_tasks (task_item # tasks) =
     (case derive_item env derived_tasks task_item of
        Inl e \<Rightarrow> Inl e
      | Inr derived_tasks' \<Rightarrow> derive_loop env derived_tasks' tasks)"

text \<open>\<^verbatim>\<open>Worker._derive_endpoints(tasks)\<close>.\<close>

definition derive_endpoints ::
  "('m, 'c) loader \<Rightarrow> ('m, 'c) pyobj list \<Rightarrow> exn + ('m, 'c) endpoint list" where
  "derive_endpoints env tasks =
     (case derive_loop env [] tasks of
        Inl e \<Rightarrow> Inl e
      | Inr derived_tasks \<Rightarrow> Inr (map Endpoint derived_tasks))"

text \<open>
  What the description of the tasks list promises, item by item, to compare the code
  with. A module gives its members that are subclasses of \<^verbatim>\<open>BaseTask\<close>; a
  string with exactly one colon, \<^verbatim>\<open>pkg:cls\<close>, is imported as the class
  \<^verbatim>\<open>pkg.cls\<close>, which must be such a subclass; any other string is imported as a
  module; a class that is such a subclass gives itself; anything else is a
  \<^verbatim>\<open>TypeError\<close>. The tasks of a list are those of its items, and the exception
  that of the first item that raises.
\<close>

definition members_tasks :: "('m, 'c) loader \<Rightarrow> 'm \<Rightarrow> ('m, 'c) pyobj list" where
  "members_tasks env m = filter (is_subclass env) (map snd (getmembers env m))"

definition item_tasks :: "('m, 'c) loader \<Rightarrow> ('m, 'c) pyobj \<Rightarrow> exn + ('m, 'c) pyobj list" where
  "item_tasks env task_item =
     (case task_item of
        Str s \<Rightarrow>
          if count_list s CHR '':'' = 1
          then (case import_class env
                       (takeWhile (\<lambda>c. c \<noteq> CHR '':'') s @ ''.'' @
                        tl (dropWhile (\<lambda>c. c \<noteq> CHR '':'') s)) of
                  Inl e \<Rightarrow> Inl e
                | Inr obj \<Rightarrow> if is_subclass env obj then Inr [obj] else Inl TypeError)
          else (case import_module env s of
                  Inl e \<Rightarrow> Inl e
                | Inr m \<Rightarrow> Inr (members_tasks env m))
      | Module m \<Rightarrow> Inr (members_tasks env m)
      | _ \<Rightarrow> if is_subclass env task_item then Inr [task_item] else Inl TypeError)"

fun all_tasks :: "('m, 'c) loader \<Rightarrow> ('m, 'c) pyobj list \<Rightarrow> exn + ('m, 'c) pyobj list" where
  "all_tasks env [] = Inr []"
| "all_tasks env (task_item # tasks) =
     (case item_tasks env task_item of
        Inl e \<Rightarrow> Inl e
      | Inr ts \<Rightarrow> (case all_tasks env tasks of Inl e \<Rightarrow> Inl e | Inr us \<Rightarrow> Inr (ts @ us)))"

text \<open>
  Loaders for the examples. In \<open>module_only_loader\<close> every name imports as a module
  with two task classes and no class can be imported. In \<open>example_loader\<close> the module
  \<^verbatim>\<open>pkg.mod\<close> has three task classes among its members.
\<close>

definition module_only_loader :: "(nat, nat) loader" where
  "module_only_loader =
     \<lparr> import_module = (\<lambda>s. Inr 0),
       import_class = (\<lambda>s. Inl ImportError),
       getmembers = (\<lambda>m. [(''First'', Class 0), (''Second'', Class 1)]),
       is_task = (\<lambda>c. True) \<rparr>"

definition example_loader :: "(nat, nat) loader" where
  "example_loader =
     \<lparr> import_module = (\<lambda>s. if s = ''pkg.mod'' then Inr 0 else Inl ImportError),
       import_class = (\<lambda>s. if s = ''pkg.mod.Task'' then Inr (Class 1) else Inl ImportError),
       getmembers = (\<lambda>m. [(''Base'', Class 0), (''Helper'', Object), (''Task'', Class 1),
                          (''Task2'', Class 2), (''os'', Module 7)]),
       is_task = (\<lambda>c. c \<le> 2) \<rparr>"

section \<open>taskflow/examples/persistence_example.py and the engine\<close>

text \<open>
  Modelled from the spec: the base class \<^verbatim>\<open>task.Task\<close> is not among the source
  files. A task is an atom (section 3): it has a name, and the methods
  \<^verbatim>\<open>execute\<close> and \<^verbatim>\<open>revert\<close>, the compensating action. What a method
  prints goes to the standard output, a list of lines; a method returns or raises.
\<close>

record task =
  task_name :: string
  execute :: "string list \<Rightarrow> (exn + unit) \<times> string list"
  revert :: "string list \<Rightarrow> (exn + unit) \<times> string list"





text \<open>
  Modelled from the spec: the engine (\<^verbatim>\<open>taskflow.engines\<close>, its compiler,
  analyzer, runtime and storage) is not among the source files. The spec gives the
  persisted states of an atom (section 3).
\<close>

datatype atom_state = PENDING | RUNNING | SUCCESS | FAILURE | REVERTING | REVERTED | REVERT_FAILURE

text \<open>
  Modelled from the spec: the intention of an atom, the persisted directive of the
  missing runtime and analyzer (section 3).
\<close>

datatype intention = EXECUTE | REVERT | RETRY | IGNORE

text \<open>
  Modelled from the spec: the engine of a flow is its execution graph (the atoms, named
  by their positions, and the edges "must complete before") with the persisted state
  and intention of every atom, the captured failures, the record of every state
  transition in the order in which it was persisted, and the standard output.
\<close>

record engine =
  atoms :: "task list"
  edges :: "(nat \<times> nat) list"
  states :: "atom_state list"
  intentions :: "intention list"
  failures :: "(nat \<times> exn) list"
  history :: "(nat \<times> atom_state) list"
  stdout :: "string list"



text \<open>
  Modelled from the spec: the predecessor query of the missing execution graph
  (section 2).
\<close>

definition predecessors :: "engine \<Rightarrow> nat \<Rightarrow> nat list" where
  "predecessors e i = map fst (filter (\<lambda>(p, s). s = i) (edges e))"

text \<open>
  Modelled from the spec: the successor query of the missing execution graph
  (section 2).
\<close>

definition successors :: "engine \<Rightarrow> nat \<Rightarrow> nat list" where
  "successors e i = map snd (filter (\<lambda>(p, s). p = i) (edges e))"

text \<open>
  Modelled from the spec: \<^verbatim>\<open>iter_next_atoms\<close> of the missing analyzer
  (section 4.2): the atoms whose intention is \<^verbatim>\<open>EXECUTE\<close>, whose state is
  \<^verbatim>\<open>PENDING\<close> and whose predecessors are all \<^verbatim>\<open>SUCCESS\<close>.
\<close>

definition iter_next_atoms :: "engine \<Rightarrow> nat list" where
  "iter_next_atoms e =
     filter (\<lambda>i. intentions e ! i = EXECUTE \<and> states e ! i = PENDING
                \<and> list_all (\<lambda>p. states e ! p = SUCCESS) (predecessors e i))
       [0..<length (states e)]"

text \<open>
  Modelled from the spec: the atoms of the missing analyzer that may be reverted
  (section 3): the intention is \<^verbatim>\<open>REVERT\<close> and every successor has finished
  reverting or never ran. An atom that failed is not reverted, in the scenario of
  section 8 as in \<^verbatim>\<open>browse_atoms_to_revert\<close>, and holds no predecessor back.
\<close>

definition iter_next_reverts :: "engine \<Rightarrow> nat list" where
  "iter_next_reverts e =
     filter (\<lambda>i. intentions e ! i = REVERT \<and> states e ! i = SUCCESS
                \<and> list_all (\<lambda>s. states e ! s \<in> {REVERTED, PENDING, FAILURE}) (successors e i))
       [0..<length (states e)]"

text \<open>
  Modelled from the spec: the walk over the predecessors of an atom of the missing
  analyzer (section 4.2), nearest first, through at most \<open>n\<close> edges.
\<close>

fun walk_predecessors :: "nat \<Rightarrow> engine \<Rightarrow> nat \<Rightarrow> nat list" where
  "walk_predecessors 0 e i = []"
| "walk_predecessors (Suc n) e i =
     predecessors e i @ concat (map (walk_predecessors n e) (predecessors e i))"

text \<open>
  Modelled from the spec: \<^verbatim>\<open>browse_atoms_to_revert\<close> of the missing analyzer
  (section 4.2): of the predecessors of a failed atom, those in \<^verbatim>\<open>SUCCESS\<close> or
  \<^verbatim>\<open>RUNNING\<close>.
\<close>

definition browse_atoms_to_revert :: "engine \<Rightarrow> nat \<Rightarrow> nat list" where
  "browse_atoms_to_revert e failed =
     filter (\<lambda>p. states e ! p \<in> {SUCCESS, RUNNING})
       (walk_predecessors (length (states e)) e failed)"

text \<open>
  Modelled from the spec: what the missing runtime (section 4.3) dispatches: the
  execution or the reversion of an atom.
\<close>

datatype action = Execute nat | Revert nat

text \<open>
  Modelled from the spec: step 1 of the control loop of the missing runtime
  (section 4.3): the atoms that are eligible to execute or to revert.
\<close>

definition eligible :: "engine \<Rightarrow> action list" where
  "eligible e = map Execute (iter_next_atoms e) @ map Revert (iter_next_reverts e)"

text \<open>
  Modelled from the spec: the missing runtime gives the atoms to revert the intention
  \<^verbatim>\<open>REVERT\<close> (sections 3 and 4.2).
\<close>

definition mark_reverts :: "engine \<Rightarrow> nat list \<Rightarrow> engine" where
  "mark_reverts e targets =
     e\<lparr>intentions := fold (\<lambda>i ints. ints[i := REVERT]) targets (intentions e)\<rparr>"

text \<open>
  Modelled from the spec: steps 2 to 4 of the control loop of the missing runtime
  (section 4.3) with the serial executor (section 4.4), which runs one atom at a time.
  The atom goes to \<^verbatim>\<open>RUNNING\<close> or \<^verbatim>\<open>REVERTING\<close>, its method is called,
  and the result is persisted: \<^verbatim>\<open>SUCCESS\<close>, or \<^verbatim>\<open>FAILURE\<close> with the
  captured failure and the intention \<^verbatim>\<open>REVERT\<close> for the atoms to revert;
  \<^verbatim>\<open>REVERTED\<close>, or \<^verbatim>\<open>REVERT_FAILURE\<close> with the failure.
\<close>

definition perform :: "engine \<Rightarrow> action \<Rightarrow> engine" where
  "perform e a =
     (case a of
        Execute i \<Rightarrow>
          (case execute (atoms e ! i) (stdout e) of
             (Inr u, out) \<Rightarrow>
               e\<lparr>states := (states e)[i := SUCCESS],
                 history := history e @ [(i, RUNNING), (i, SUCCESS)],
                 stdout := out\<rparr>
           | (Inl x, out) \<Rightarrow>
               (let e' = e\<lparr>states := (states e)[i := FAILURE],
                           failures := failures e @ [(i, x)],
                           history := history e @ [(i, RUNNING), (i, FAILURE)],
                           stdout := out\<rparr>
                in mark_reverts e' (browse_atoms_to_revert e' i)))
      | Revert i \<Rightarrow>
          (case revert (atoms e ! i) (stdout e) of
             (Inr u, out) \<Rightarrow>
               e\<lparr>states := (states e)[i := REVERTED],
                 history := history e @ [(i, REVERTING), (i, REVERTED)],
                 stdout := out\<rparr>
           | (Inl x, out) \<Rightarrow>
               e\<lparr>states := (states e)[i := REVERT_FAILURE],
                 failures := failures e @ [(i, x)],
                 history := history e @ [(i, REVERTING), (i, REVERT_FAILURE)],
                 stdout := out\<rparr>))"

text \<open>
  The work that is left in an engine: an atom can still be executed and then reverted,
  reverted only, or neither. Every pass of the loop lessens it, so the loop ends.
\<close>

fun rank :: "atom_state \<Rightarrow> nat" where
  "rank PENDING = 2"
| "rank RUNNING = 2"
| "rank SUCCESS = 1"
| "rank REVERTING = 1"
| "rank FAILURE = 0"
| "rank REVERTED = 0"
| "rank REVERT_FAILURE = 0"

definition work_left :: "engine \<Rightarrow> nat" where
  "work_left e = sum_list (map rank (states e))"

lemma sum_list_map_update_less:
  "i < length xs \<Longrightarrow> f y < f (xs ! i) \<Longrightarrow>
     sum_list (map f (xs[i := y])) < sum_list (map (f :: 'a \<Rightarrow> nat) xs)"
proof (induction xs arbitrary: i)
  case Nil
  then show ?case by simp
next
  case (Cons x xs)
  then show ?case by (cases i) auto
qed

lemma states_mark_reverts: "states (mark_reverts e targets) = states e"
  by (simp add: mark_reverts_def)

lemma perform_work_left:
  assumes "a \<in> set (eligible e)"
  shows "work_left (perform e a) < work_left e"
proof (cases a)
  case (Execute i)
  with assms have i: "i < length (states e)" "states e ! i = PENDING"
    by (auto simp: eligible_def iter_next_atoms_def)
  then have "sum_list (map rank ((states e)[i := s])) < sum_list (map rank (states e))"
    if "s = SUCCESS \<or> s = FAILURE" for s
    using that by (intro sum_list_map_update_less) auto
  with Execute show ?thesis
    by (auto simp: perform_def work_left_def states_mark_reverts Let_def
        split: prod.splits sum.splits)
next
  case (Revert i)
  with assms have i: "i < length (states e)" "states e ! i = SUCCESS"
    by (auto simp: eligible_def iter_next_reverts_def)
  then have "sum_list (map rank ((states e)[i := s])) < sum_list (map rank (states e))"
    if "s = REVERTED \<or> s = REVERT_FAILURE" for s
    using that by (intro sum_list_map_update_less) auto
  with Revert show ?thesis
    by (auto simp: perform_def work_left_def split: prod.splits sum.splits)
qed

text \<open>
  Modelled from the spec: the control loop of the missing runtime (section 4.3) ends
  when no atom is eligible.
  Among atoms that are eligible together the order is not specified; the serial loop
  takes the first.
\<close>

function run_loop :: "engine \<Rightarrow> engine" where
  "run_loop e = (case eligible e of [] \<Rightarrow> e | a # rest \<Rightarrow> run_loop (perform e a))"
  by pat_completeness auto
termination
proof (relation "measure work_left")
  show "wf (measure work_left)" by simp
next
  fix e a rest
  assume "eligible e = a # rest"
  then have "a \<in> set (eligible e)" by simp
  then show "(perform e a, e) \<in> measure work_left"
    by (simp add: perform_work_left)
qed

text \<open>
  Modelled from the spec: what \<^verbatim>\<open>run()\<close> of the missing engine does
  (section 7): it returns normally, or raises, wrapping captured failures, each here
  with the name of its atom.
\<close>

datatype run_result = Returned | Raised_Wrapping "(string \<times> exn) list"

text \<open>
  Modelled from the spec: \<^verbatim>\<open>run()\<close> of the missing engine returns normally
  only when every atom is \<^verbatim>\<open>SUCCESS\<close>, and otherwise raises, wrapping the
  captured failures (section 7). The engine after the run is returned with the result.
\<close>

definition run :: "engine \<Rightarrow> run_result \<times> engine" where
  "run e =
     (let e' = run_loop e
      in (if list_all (\<lambda>s. s = SUCCESS) (states e') then Returned
          else Raised_Wrapping (map (\<lambda>(i, x). (task_name (atoms e' ! i), x)) (failures e')),
          e'))"

section \<open>Properties of assertIsSuperAndSubsequence\<close>

lemma list_index_Inl: "list_index xs x = Inl e \<Longrightarrow> x \<notin> set xs"
  by (induction xs arbitrary: e) (auto split: if_splits sum.splits)

lemma list_index_Inr:
  "list_index xs x = Inr i \<Longrightarrow>
     i < length xs \<and> xs ! i = x \<and> x \<notin> set (take i xs)"
proof (induction xs arbitrary: i)
  case Nil
  then show ?case by simp
next
  case (Cons y ys)
  show ?case
  proof (cases "y = x")
    case True
    with Cons.prems show ?thesis by simp
  next
    case False
    with Cons.prems obtain j where j: "list_index ys x = Inr j" "i = Suc j"
      by (auto split: sum.splits)
    from Cons.IH [OF j(1)] False j(2) show ?thesis by auto
  qed
qed

lemma subseq_skip_prefix:
  "x \<notin> set pre \<Longrightarrow> subseq (x # xs) (pre @ x # post) \<longleftrightarrow> subseq xs post"
  by (induction pre) auto

lemma subseq_Cons_mem: "subseq (x # xs) ys \<Longrightarrow> x \<in> set ys"
  by (induction ys) (auto split: if_splits)

lemma subsequence_loop_iff:
  "subsequence_loop cur sub = Inr () \<longleftrightarrow> subseq sub cur"
proof (induction sub arbitrary: cur)
  case Nil
  then show ?case by simp
next
  case (Cons x xs)
  show ?case
  proof (cases "list_index cur x")
    case (Inl e)
    then have "x \<notin> set cur" by (rule list_index_Inl)
    then have "\<not> subseq (x # xs) cur"
      using subseq_Cons_mem by fastforce
    with Inl show ?thesis by simp
  next
    case (Inr i)
    from list_index_Inr [OF Inr]
    have i: "i < length cur" "cur ! i = x" "x \<notin> set (take i cur)" by auto
    then have split: "cur = take i cur @ x # drop (i + 1) cur"
      using id_take_nth_drop [of i cur] by simp
    have "subseq (x # xs) cur \<longleftrightarrow> subseq (x # xs) (take i cur @ x # drop (i + 1) cur)"
      using split by simp
    also have "\<dots> \<longleftrightarrow> subseq xs (drop (i + 1) cur)"
      by (rule subseq_skip_prefix [OF i(3)])
    finally show ?thesis using Inr Cons.IH by simp
  qed
qed

lemma subsequence_loop_cases:
  "subsequence_loop cur sub = Inr () \<or> subsequence_loop cur sub = Inl AssertionError"
  by (induction sub arbitrary: cur) (auto split: sum.splits)

text \<open>
  C10. \<^verbatim>\<open>assertIsSuperAndSubsequence(super_seq, sub_seq)\<close> returns without raising
  exactly when \<open>sub_seq\<close> is a (not necessarily contiguous) subsequence of
  \<open>super_seq\<close>: the greedy matching, which takes the earliest occurrence of each
  element in the remaining tail, succeeds exactly when an order-preserving embedding
  exists. Otherwise it raises \<^verbatim>\<open>AssertionError\<close>.
\<close>

theorem assertIsSuperAndSubsequence_iff_subseq:
  "(assertIsSuperAndSubsequence super_seq sub_seq = Inr ()) = subseq sub_seq super_seq
   \<and> (assertIsSuperAndSubsequence super_seq sub_seq = Inl AssertionError)
       = (\<not> subseq sub_seq super_seq)"
proof -
  have ok: "(assertIsSuperAndSubsequence super_seq sub_seq = Inr ()) = subseq sub_seq super_seq"
    unfolding assertIsSuperAndSubsequence_def by (rule subsequence_loop_iff)
  have "assertIsSuperAndSubsequence super_seq sub_seq = Inr ()
      \<or> assertIsSuperAndSubsequence super_seq sub_seq = Inl AssertionError"
    unfolding assertIsSuperAndSubsequence_def by (rule subsequence_loop_cases)
  with ok show ?thesis by auto
qed

theorem assertIsSuperAndSubsequence_witness:
  "assertIsSuperAndSubsequence [1, 2, 3, 2, 4 :: nat] [2, 2, 4] = Inr ()
   \<and> subseq [2, 2, 4] [1, 2, 3, 2, 4 :: nat]
   \<and> assertIsSuperAndSubsequence [1, 2, 3 :: nat] [3, 1] = Inl AssertionError
   \<and> \<not> subseq [3, 1] [1, 2, 3 :: nat]"
proof -
  have a: "assertIsSuperAndSubsequence [1, 2, 3, 2, 4 :: nat] [2, 2, 4] = Inr ()"
    by (simp add: assertIsSuperAndSubsequence_def)
  have b: "assertIsSuperAndSubsequence [1, 2, 3 :: nat] [3, 1] = Inl AssertionError"
    by (simp add: assertIsSuperAndSubsequence_def)
  from a b assertIsSuperAndSubsequence_iff_subseq [of "[1, 2, 3, 2, 4 :: nat]" "[2, 2, 4]"]
    assertIsSuperAndSubsequence_iff_subseq [of "[1, 2, 3 :: nat]" "[3, 1]"]
  show ?thesis by blast
qed

section \<open>Properties of _cached_get\<close>

lemma cache_store_Inr:
  "cache cache_key = Some d \<Longrightarrow>
     cache_store cache cache_key atom_name entry s =
       (Inr entry, cache(cache_key \<mapsto> d(atom_name \<mapsto> entry)), s)"
  by (simp add: cache_store_def)

lemma cache_store_result:
  "fst (cache_store cache cache_key atom_name entry s) = Inr entry
   \<or> fst (cache_store cache cache_key atom_name entry s) = Inl KeyError"
  by (simp add: cache_store_def split: option.splits)

lemma cached_get_hit:
  "cache_lookup cache cache_key atom_name = Some entry \<Longrightarrow>
     cached_get cache cache_key atom_name fetch_func s = (Inr entry, cache, s)"
  by (cases entry) (simp add: cached_get_def)

lemma cached_get_stores:
  assumes "cached_get cache cache_key atom_name fetch_func s = (Inr entry, cache', s')"
  shows "cache_lookup cache' cache_key atom_name = Some entry"
  using assms
  by (auto simp: cached_get_def cache_lookup_def cache_store_def
      split: option.splits prod.splits sum.splits if_splits)

lemma cached_get_keeps:
  assumes "cache_lookup cache k n = Some entry"
    and "cached_get cache cache_key atom_name fetch_func s = (r, cache', s')"
  shows "cache_lookup cache' k n = Some entry"
  using assms
  by (auto simp: cached_get_def cache_lookup_def cache_store_def
      split: option.splits prod.splits sum.splits if_splits)

lemma cached_gets_keeps:
  "cache_lookup cache k n = Some entry \<Longrightarrow> cached_gets cache calls s = (cache', s') \<Longrightarrow>
     cache_lookup cache' k n = Some entry"
proof (induction calls arbitrary: cache s)
  case Nil
  then show ?case by simp
next
  case (Cons c calls)
  obtain key nm f where c: "c = (key, nm, f)" by (cases c)
  obtain r cache1 s1 where step: "cached_get cache key nm f s = (r, cache1, s1)"
    by (cases "cached_get cache key nm f s")
  from Cons.prems(1) step have "cache_lookup cache1 k n = Some entry"
    by (rule cached_get_keeps)
  moreover from Cons.prems(2) c step have "cached_gets cache1 calls s1 = (cache', s')"
    by simp
  ultimately show ?case by (rule Cons.IH)
qed

text \<open>
  C2. When the fetch function raises \<^verbatim>\<open>StorageFailure\<close> or
  \<^verbatim>\<open>NotFound\<close>, \<^verbatim>\<open>_cached_get\<close> never raises that exception to its
  caller, whatever the cache; on a cache that holds a dictionary for \<open>cache_key\<close> with
  no entry for \<open>atom_name\<close> (so that the fetch function is called) it returns
  \<^verbatim>\<open>(None, False)\<close> and records that pair. An exception of any other class
  raised by the fetch function propagates, and the cache is left as it was.
\<close>

theorem cached_get_storage_failure:
  assumes "fetch_func s = (Inl e, s')"
  shows "(e = StorageFailure \<or> e = NotFound \<longrightarrow>
            fst (cached_get cache cache_key atom_name fetch_func s) \<noteq> Inl e)
       \<and> (e = StorageFailure \<or> e = NotFound \<longrightarrow>
            cache cache_key = Some d \<longrightarrow> d atom_name = None \<longrightarrow>
            cached_get cache cache_key atom_name fetch_func s =
              (Inr (None, False), cache(cache_key \<mapsto> d(atom_name \<mapsto> (None, False))), s'))
       \<and> (e \<noteq> StorageFailure \<and> e \<noteq> NotFound \<longrightarrow>
            cache_lookup cache cache_key atom_name = None \<longrightarrow>
            cached_get cache cache_key atom_name fetch_func s = (Inl e, cache, s'))"
proof (intro conjI impI)
  assume e: "e = StorageFailure \<or> e = NotFound"
  show "fst (cached_get cache cache_key atom_name fetch_func s) \<noteq> Inl e"
  proof (cases "cache_lookup cache cache_key atom_name")
    case None
    with assms e
    have "cached_get cache cache_key atom_name fetch_func s =
        cache_store cache cache_key atom_name (None, False) s'"
      by (auto simp: cached_get_def)
    with cache_store_result [of cache cache_key atom_name "(None, False)" s'] e
    show ?thesis by auto
  next
    case (Some entry)
    then show ?thesis by (simp add: cached_get_hit)
  qed
next
  assume e: "e = StorageFailure \<or> e = NotFound"
    and d: "cache cache_key = Some d" "d atom_name = None"
  from d have "cache_lookup cache cache_key atom_name = None"
    by (simp add: cache_lookup_def)
  with assms e d(1)
  show "cached_get cache cache_key atom_name fetch_func s =
      (Inr (None, False), cache(cache_key \<mapsto> d(atom_name \<mapsto> (None, False))), s')"
    by (auto simp: cached_get_def cache_store_Inr)
next
  assume "e \<noteq> StorageFailure \<and> e \<noteq> NotFound"
    and "cache_lookup cache cache_key atom_name = None"
  with assms show "cached_get cache cache_key atom_name fetch_func s = (Inl e, cache, s')"
    by (simp add: cached_get_def)
qed

theorem cached_get_storage_failure_witness:
  "cached_get empty_cache ''states'' ''hi'' failing_fetch (0::nat) =
     (Inr (None :: nat option, False),
      empty_cache(''states'' \<mapsto> [''hi'' \<mapsto> (None, False)]), 1)
   \<and> cached_get empty_cache ''states'' ''hi'' broken_fetch (0::nat) =
     (Inl (Exception ''boom''), empty_cache :: nat cache, 1)"
proof -
  have f: "(failing_fetch :: (nat, nat) fetch) 0 = (Inl StorageFailure, 1)"
    by (simp add: failing_fetch_def)
  have b: "(broken_fetch :: (nat, nat) fetch) 0 = (Inl (Exception ''boom''), 1)"
    by (simp add: broken_fetch_def)
  have d: "(empty_cache :: nat cache) ''states'' = Some Map.empty"
    by (simp add: empty_cache_def)
  have l: "cache_lookup (empty_cache :: nat cache) ''states'' ''hi'' = None"
    by (simp add: cache_lookup_def d)
  from cached_get_storage_failure
      [of "failing_fetch :: (nat, nat) fetch" 0 StorageFailure 1 empty_cache
        "''states''" "''hi''" Map.empty]
    cached_get_storage_failure
      [of "broken_fetch :: (nat, nat) fetch" 0 "Exception ''boom''" 1 empty_cache
        "''states''" "''hi''" Map.empty]
    f b d l
  show ?thesis by simp
qed

text \<open>
  C8. \<^verbatim>\<open>_cached_get\<close> memoizes per (cache kind, atom name). When a call has
  returned a pair, that pair is the entry of \<^verbatim>\<open>cache[cache_key][atom_name]\<close>;
  after any further calls of \<^verbatim>\<open>_cached_get\<close> on the same cache, for any keys,
  a call with the same \<open>cache_key\<close> and \<open>atom_name\<close> returns the same pair, and
  leaves the cache and the storage state as they were: the fetch function, whichever
  it is, is not called. The pair may be the negative \<^verbatim>\<open>(None, False)\<close>.
\<close>

theorem cached_get_memoizes:
  assumes "cached_get cache cache_key atom_name fetch_func s = (Inr entry, cache1, s1)"
    and "cached_gets cache1 calls s1 = (cache2, s2)"
  shows "cache_lookup cache1 cache_key atom_name = Some entry
       \<and> cached_get cache2 cache_key atom_name fetch_func' s3 = (Inr entry, cache2, s3)"
proof -
  from assms(1) have stored: "cache_lookup cache1 cache_key atom_name = Some entry"
    by (rule cached_get_stores)
  from stored assms(2) have "cache_lookup cache2 cache_key atom_name = Some entry"
    by (rule cached_gets_keeps)
  then have "cached_get cache2 cache_key atom_name fetch_func' s3 = (Inr entry, cache2, s3)"
    by (rule cached_get_hit)
  with stored show ?thesis by simp
qed

theorem cached_get_memoizes_witness:
  "cached_get empty_cache ''states'' ''hi'' failing_fetch (0::nat) =
     (Inr (None :: nat option, False),
      empty_cache(''states'' \<mapsto> [''hi'' \<mapsto> (None, False)]), 1)
   \<and> cached_gets (empty_cache(''states'' \<mapsto> [''hi'' \<mapsto> (None, False)]))
        [(''states'', ''bye'', const_fetch (3::nat))] (1::nat) =
     (empty_cache(''states'' \<mapsto> [''hi'' \<mapsto> (None, False), ''bye'' \<mapsto> (Some 3, True)]), 2)
   \<and> cached_get
        (empty_cache(''states'' \<mapsto> [''hi'' \<mapsto> (None, False), ''bye'' \<mapsto> (Some 3, True)]))
        ''states'' ''hi'' (const_fetch (7::nat)) (2::nat) =
     (Inr (None :: nat option, False),
      empty_cache(''states'' \<mapsto> [''hi'' \<mapsto> (None, False), ''bye'' \<mapsto> (Some 3, True)]), 2)"
proof -
  let ?c1 = "(empty_cache :: nat cache)(''states'' \<mapsto> [''hi'' \<mapsto> (None, False)])"
  let ?c2 = "(empty_cache :: nat cache)
    (''states'' \<mapsto> [''hi'' \<mapsto> (None, False), ''bye'' \<mapsto> (Some 3, True)])"
  have first: "cached_get empty_cache ''states'' ''hi'' failing_fetch (0::nat) =
      (Inr (None :: nat option, False), ?c1, 1)"
    by (simp add: cached_get_def cache_lookup_def cache_store_def failing_fetch_def
        empty_cache_def)
  have rest: "cached_gets ?c1 [(''states'', ''bye'', const_fetch 3)] (1::nat) = (?c2, 2)"
    by (simp add: cached_get_def cache_lookup_def cache_store_def const_fetch_def)
  from cached_get_memoizes [OF first rest, of "const_fetch 7" 2] first rest
  show ?thesis by simp
qed

section \<open>Properties of _format_node\<close>

lemma node_attrs_hidden_storage:
  assumes "name atom \<in> hide"
  shows "node_attrs hide (storage\<lparr>fetch_mapped_args := f, get_execute_result := g\<rparr>) cache atom s
       = node_attrs hide storage cache atom s"
  using assms by (simp add: node_attrs_def Let_def split: prod.splits sum.splits)

lemma node_attrs_hidden_dom:
  assumes "name atom \<in> hide"
    and "node_attrs hide storage cache atom s = (Inr atom_attrs, cache', s')"
  shows "dom atom_attrs \<subseteq> {''intention'', ''state''}"
  using assms
  by (auto simp: node_attrs_def Let_def split: prod.splits sum.splits if_splits)

lemma cached_get_other_kind:
  assumes "cached_get cache cache_key atom_name fetch_func s = (r, cache', s')"
    and "k \<noteq> cache_key"
  shows "cache' k = cache k"
  using assms
  by (auto simp: cached_get_def cache_store_def
      split: option.splits prod.splits sum.splits if_splits)

lemma node_attrs_hidden_cache:
  assumes "name atom \<in> hide"
    and "node_attrs hide storage cache atom s = (r, cache', s')"
  shows "cache' ''requires'' = cache ''requires'' \<and> cache' ''provides'' = cache ''provides''"
proof -
  obtain r1 c1 s1 where
    one: "cached_get cache ''intentions'' (name atom) (get_atom_intention storage (name atom)) s
      = (r1, c1, s1)"
    by (cases "cached_get cache ''intentions'' (name atom)
        (get_atom_intention storage (name atom)) s")
  obtain r2 c2 s2 where
    two: "cached_get c1 ''states'' (name atom) (get_atom_state storage (name atom)) s1
      = (r2, c2, s2)"
    by (cases "cached_get c1 ''states'' (name atom) (get_atom_state storage (name atom)) s1")
  have c1: "c1 ''requires'' = cache ''requires''" "c1 ''provides'' = cache ''provides''"
    using cached_get_other_kind [OF one] by simp_all
  have c2: "c2 ''requires'' = c1 ''requires''" "c2 ''provides'' = c1 ''provides''"
    using cached_get_other_kind [OF two] by simp_all
  from assms one two have "cache' = c1 \<or> cache' = c2"
    by (auto simp: node_attrs_def Let_def split: prod.splits sum.splits if_splits)
  with c1 c2 show ?thesis by auto
qed

text \<open>
  C9. For an atom whose name is in \<^verbatim>\<open>hide_inputs_outputs_of\<close>:
  \<^verbatim>\<open>_format_node\<close> gives the same result, cache and storage state whatever the
  storage's \<^verbatim>\<open>fetch_mapped_args\<close> and \<^verbatim>\<open>get_execute_result\<close> are (it
  calls neither, and two runs that differ only in the atom's stored inputs and outputs
  format it identically); the string it returns is the rendering of a dictionary with
  no \<^verbatim>\<open>'requires'\<close> and no \<^verbatim>\<open>'provides'\<close> entry; and it stores nothing
  under these two kinds in the cache.
\<close>

theorem format_node_hides_inputs_outputs:
  assumes "name atom \<in> hide"
  shows "format_node hide str_of
           (storage\<lparr>fetch_mapped_args := f, get_execute_result := g\<rparr>) cache atom s
         = format_node hide str_of storage cache atom s
       \<and> (format_node hide str_of storage cache atom s = (Inr text, cache', s') \<longrightarrow>
           (\<exists>atom_attrs. text = render_atom str_of (name atom) atom_attrs
             \<and> ''requires'' \<notin> dom atom_attrs \<and> ''provides'' \<notin> dom atom_attrs))
       \<and> (format_node hide str_of storage cache atom s = (r, cache'', s'') \<longrightarrow>
           cache'' ''requires'' = cache ''requires''
           \<and> cache'' ''provides'' = cache ''provides'')"
proof (intro conjI impI)
  show "format_node hide str_of
      (storage\<lparr>fetch_mapped_args := f, get_execute_result := g\<rparr>) cache atom s
    = format_node hide str_of storage cache atom s"
    by (simp add: format_node_def node_attrs_hidden_storage [OF assms])
next
  assume res: "format_node hide str_of storage cache atom s = (Inr text, cache', s')"
  then obtain atom_attrs where
    a: "node_attrs hide storage cache atom s = (Inr atom_attrs, cache', s')"
    and t: "text = render_atom str_of (name atom) atom_attrs"
    by (auto simp: format_node_def split: prod.splits sum.splits)
  from node_attrs_hidden_dom [OF assms a]
  have "''requires'' \<notin> dom atom_attrs \<and> ''provides'' \<notin> dom atom_attrs"
    by auto
  with t show "\<exists>atom_attrs. text = render_atom str_of (name atom) atom_attrs
      \<and> ''requires'' \<notin> dom atom_attrs \<and> ''provides'' \<notin> dom atom_attrs"
    by blast
next
  assume "format_node hide str_of storage cache atom s = (r, cache'', s'')"
  then obtain r' where n: "node_attrs hide storage cache atom s = (r', cache'', s'')"
    by (auto simp: format_node_def split: prod.splits sum.splits)
  from node_attrs_hidden_cache [OF assms n]
  show "cache'' ''requires'' = cache ''requires''"
    and "cache'' ''provides'' = cache ''provides''"
    by simp_all
qed

theorem format_node_hides_inputs_outputs_witness:
  "name bye_atom \<in> {''bye''}
   \<and> format_node {''bye''} (\<lambda>d. ''{..}'') (logging_storage ''first run'') empty_cache
        bye_atom []
     = format_node {''bye''} (\<lambda>d. ''{..}'') (logging_storage ''second run'') empty_cache
        bye_atom []
   \<and> format_node {''bye''} (\<lambda>d. ''{..}'') (logging_storage ''first run'') empty_cache
        bye_atom []
     = (Inr (''Atom '' @ [CHR 0x27] @ ''bye'' @ [CHR 0x27] @ '' {..}''),
        empty_cache(''intentions'' \<mapsto> [''bye'' \<mapsto> (Some ''EXECUTE'', True)],
                    ''states'' \<mapsto> [''bye'' \<mapsto> (Some ''FAILURE'', True)]),
        [''get_atom_state'', ''get_atom_intention''])"
proof -
  have hidden: "name bye_atom \<in> {''bye''}"
    by (simp add: bye_atom_def)
  have upd: "logging_storage ''second run'' =
      (logging_storage ''first run'')
        \<lparr>fetch_mapped_args := fetch_mapped_args (logging_storage ''second run''),
         get_execute_result := get_execute_result (logging_storage ''second run'')\<rparr>"
    by (simp add: logging_storage_def)
  have run: "format_node {''bye''} (\<lambda>d. ''{..}'') (logging_storage ''first run'') empty_cache
        bye_atom []
     = (Inr (''Atom '' @ [CHR 0x27] @ ''bye'' @ [CHR 0x27] @ '' {..}''),
        empty_cache(''intentions'' \<mapsto> [''bye'' \<mapsto> (Some ''EXECUTE'', True)],
                    ''states'' \<mapsto> [''bye'' \<mapsto> (Some ''FAILURE'', True)]),
        [''get_atom_state'', ''get_atom_intention''])"
    by (simp add: format_node_def node_attrs_def cached_get_def cache_lookup_def
        cache_store_def logging_storage_def bye_atom_def empty_cache_def render_atom_def
        fun_upd_twist)
  from format_node_hides_inputs_outputs [OF hidden,
      where str_of = "\<lambda>d. ''{..}''" and storage = "logging_storage ''first run''"
        and f = "fetch_mapped_args (logging_storage ''second run'')"
        and g = "get_execute_result (logging_storage ''second run'')"
        and cache = empty_cache and s = "[]"]
  have "format_node {''bye''} (\<lambda>d. ''{..}'') (logging_storage ''second run'') empty_cache
        bye_atom []
     = format_node {''bye''} (\<lambda>d. ''{..}'') (logging_storage ''first run'') empty_cache
        bye_atom []"
    using upd by simp
  with hidden run show ?thesis by simp
qed

section \<open>Properties of wait_for_any\<close>



lemma append_waiter_eq:
  "append_waiter w fs x =
     w\<lparr>futures := (\<lambda>f. (futures w f)
          \<lparr>f_waiters := f_waiters (futures w f) @ replicate (count_list fs f) x\<rparr>)\<rparr>"
proof (induction fs arbitrary: w)
  case Nil
  then show ?case by simp
next
  case (Cons g fs)
  show ?case
    by (simp add: Cons.IH fun_eq_iff replicate_app_Cons_same)
qed







lemma register_states:
  "f_state (futures (register w fs) f) = f_state (futures w f)"
  by (simp add: register_def append_waiter_eq)





section \<open>Properties of _fetch_predecessor_tree\<close>

lemma visit_simps:
  "nodes (visit par st p) =
     add_child (nodes st @ [\<lparr> item = p, children = [] \<rparr>]) par (length (nodes st))"
  "stack (visit par st p) = stack st @ [(length (nodes st), p)]"
  "seen (visit par st p) = insert p (seen st)"
  by (simp_all add: visit_def new_node_def)

lemma stack_visit_all:
  "\<exists>cs. length cs = length ps \<and> stack (visit_all par st ps) = stack st @ zip cs ps"
proof (induction ps arbitrary: st)
  case Nil
  show ?case by simp
next
  case (Cons p ps)
  from Cons.IH [of "visit par st p"] obtain cs where
    cs: "length cs = length ps"
      "stack (visit_all par (visit par st p) ps) = stack (visit par st p) @ zip cs ps"
    by blast
  then have "length (length (nodes st) # cs) = length (p # ps) \<and>
      stack (visit_all par st (p # ps)) = stack st @ zip (length (nodes st) # cs) (p # ps)"
    by (simp add: visit_simps)
  then show ?case by blast
qed

lemma seen_visit_all: "seen (visit_all par st ps) = seen st \<union> set ps"
  by (induction ps arbitrary: st) (auto simp: visit_simps)

lemma stack_atoms_visit_all:
  "snd ` set (stack (visit_all par st ps)) = snd ` set (stack st) \<union> set ps"
proof -
  obtain cs where cs: "length cs = length ps"
    "stack (visit_all par st ps) = stack st @ zip cs ps"
    using stack_visit_all by blast
  have "snd ` set (zip cs ps) = set (map snd (zip cs ps))" by simp
  also have "\<dots> = set ps" using cs(1) by simp
  finally show ?thesis using cs(2) by (simp add: image_Un)
qed

subsection \<open>Termination\<close>

lemma finite_pred_rel: "finite (pred_rel g)"
proof -
  have "pred_rel g \<subseteq> (\<Union>(n, ps)\<in>set g. set ps \<times> {n})"
    by (auto simp: pred_rel_def dest: map_of_SomeD)
  moreover have "finite (\<Union>(n, ps)\<in>set g. set ps \<times> {n})"
    by auto
  ultimately show ?thesis by (rule finite_subset)
qed

lemma predecessors_iter_edge:
  "predecessors_iter g n = Inr preds \<Longrightarrow> (p, n) \<in> pred_rel g \<longleftrightarrow> p \<in> set preds"
  by (auto simp: predecessors_iter_def pred_rel_def split: option.splits)

lemma walk_loop_empty: "stack st = [] \<Longrightarrow> walk_loop g st = Some (Inr st)"
  by (subst walk_loop.simps) simp

lemma walk_loop_raise:
  "stack st = stk @ [(par, n)] \<Longrightarrow> predecessors_iter g n = Inl e \<Longrightarrow>
     walk_loop g st = Some (Inl e)"
  by (subst walk_loop.simps) simp

lemma walk_loop_step:
  "stack st = stk @ [(par, n)] \<Longrightarrow> predecessors_iter g n = Inr preds \<Longrightarrow>
     walk_loop g st = walk_loop g (visit_all par (st\<lparr>stack := stk\<rparr>) preds)"
  by (subst walk_loop.simps) simp

lemma walk_loop_push_all:
  assumes "\<And>p stk par. p \<in> set ps \<Longrightarrow> \<forall>st. stack st = stk \<longrightarrow> walk_loop g st \<noteq> None \<Longrightarrow>
      \<forall>st. stack st = stk @ [(par, p)] \<longrightarrow> walk_loop g st \<noteq> None"
    and "length cs = length ps"
    and "\<forall>st. stack st = stk \<longrightarrow> walk_loop g st \<noteq> None"
  shows "\<forall>st. stack st = stk @ zip cs ps \<longrightarrow> walk_loop g st \<noteq> None"
  using assms
proof (induction ps arbitrary: cs stk)
  case Nil
  then show ?case by simp
next
  case (Cons p ps)
  from Cons.prems(2) obtain c cs' where cs: "cs = c # cs'" "length cs' = length ps"
    by (cases cs) auto
  have one: "\<forall>st. stack st = stk @ [(c, p)] \<longrightarrow> walk_loop g st \<noteq> None"
    using Cons.prems(1) [of p stk c] Cons.prems(3) by simp
  have "\<forall>st. stack st = (stk @ [(c, p)]) @ zip cs' ps \<longrightarrow> walk_loop g st \<noteq> None"
  proof (rule Cons.IH [OF _ cs(2) one])
    fix q stk' par'
    assume "q \<in> set ps" and "\<forall>st. stack st = stk' \<longrightarrow> walk_loop g st \<noteq> None"
    then show "\<forall>st. stack st = stk' @ [(par', q)] \<longrightarrow> walk_loop g st \<noteq> None"
      using Cons.prems(1) [of q stk' par'] by simp
  qed
  with cs(1) show ?case by simp
qed

lemma walk_loop_push:
  assumes "wf (pred_rel g)"
  shows "\<forall>st. stack st = stk \<longrightarrow> walk_loop g st \<noteq> None \<Longrightarrow>
     \<forall>st. stack st = stk @ [(par, n)] \<longrightarrow> walk_loop g st \<noteq> None"
  using assms
proof (induction n arbitrary: stk par rule: wf_induct_rule)
  case (less n)
  show ?case
  proof (intro allI impI)
    fix st :: "'a walk"
    assume st: "stack st = stk @ [(par, n)]"
    show "walk_loop g st \<noteq> None"
    proof (cases "predecessors_iter g n")
      case (Inl e)
      with st show ?thesis by (simp add: walk_loop_raise)
    next
      case (Inr preds)
      let ?st1 = "visit_all par (st\<lparr>stack := stk\<rparr>) preds"
      obtain cs where cs: "length cs = length preds" "stack ?st1 = stk @ zip cs preds"
        using stack_visit_all [of preds par "st\<lparr>stack := stk\<rparr>"] by auto
      have "\<forall>st'. stack st' = stk @ zip cs preds \<longrightarrow> walk_loop g st' \<noteq> None"
      proof (rule walk_loop_push_all [OF _ cs(1) less.prems])
        fix p stk' par'
        assume p: "p \<in> set preds"
          and "\<forall>st. stack st = stk' \<longrightarrow> walk_loop g st \<noteq> None"
        moreover from p Inr have "(p, n) \<in> pred_rel g"
          by (simp add: predecessors_iter_edge)
        ultimately show "\<forall>st. stack st = stk' @ [(par', p)] \<longrightarrow> walk_loop g st \<noteq> None"
          using less.IH by blast
      qed
      with cs(2) have "walk_loop g ?st1 \<noteq> None" by blast
      with walk_loop_step [OF st Inr] show ?thesis by simp
    qed
  qed
qed

lemma walk_loop_terminates:
  assumes "acyclic (pred_rel g)"
  shows "walk_loop g st \<noteq> None"
proof -
  have wf: "wf (pred_rel g)"
    using finite_pred_rel assms by (rule finite_acyclic_wf)
  have "\<forall>st. stack st = stk \<longrightarrow> walk_loop g st \<noteq> None" for stk :: "(nat \<times> 'a) list"
  proof (induction stk rule: rev_induct)
    case Nil
    show ?case by (simp add: walk_loop_empty)
  next
    case (snoc e stk)
    obtain par n where "e = (par, n)" by (cases e)
    with walk_loop_push [OF wf snoc.IH] show ?case by simp
  qed
  then show ?thesis by blast
qed

subsection \<open>A cycle\<close>

lemma self_loop_diverges:
  assumes "stack st \<noteq> []" and "snd ` set (stack st) \<subseteq> {0}"
  shows "walk_loop self_loop st = None"
proof (rule ccontr)
  assume "walk_loop self_loop st \<noteq> None"
  then obtain y where y: "walk_loop self_loop st = Some y" by auto
  have "\<not> (self_loop = self_loop \<and> stack st \<noteq> [] \<and> snd ` set (stack st) \<subseteq> {0})"
  proof (rule walk_loop.raw_induct
      [where P = "\<lambda>graph st y. \<not> (graph = self_loop \<and> stack st \<noteq> [] \<and> snd ` set (stack st) \<subseteq> {0})",
        OF _ y])
    fix f :: "nat graph \<Rightarrow> nat walk \<Rightarrow> (exn + nat walk) option" and graph st y
    assume IH: "\<And>graph st y. f graph st = Some y \<Longrightarrow>
        \<not> (graph = self_loop \<and> stack st \<noteq> [] \<and> snd ` set (stack st) \<subseteq> {0})"
      and body: "(if stack st = [] then Some (Inr st)
        else case last (stack st) of
           (parent, node) \<Rightarrow>
             case predecessors_iter graph node of Inl e \<Rightarrow> Some (Inl e)
             | Inr preds \<Rightarrow>
                 f graph (visit_all parent (st\<lparr>stack := butlast (stack st)\<rparr>) preds)) = Some y"
    show "\<not> (graph = self_loop \<and> stack st \<noteq> [] \<and> snd ` set (stack st) \<subseteq> {0})"
    proof
      assume a: "graph = self_loop \<and> stack st \<noteq> [] \<and> snd ` set (stack st) \<subseteq> {0}"
      then obtain stk par where stk: "stack st = stk @ [(par, 0)]"
        by (cases "stack st" rule: rev_cases) auto
      have p: "predecessors_iter self_loop 0 = Inr [0]"
        by (simp add: predecessors_iter_def self_loop_def)
      let ?st1 = "visit_all par (st\<lparr>stack := stk\<rparr>) [0]"
      from body a stk p have "f self_loop ?st1 = Some y"
        by simp
      moreover have "stack ?st1 \<noteq> [] \<and> snd ` set (stack ?st1) \<subseteq> {0}"
        using a stk by (auto simp: visit_simps)
      ultimately show False using IH by blast
    qed
  qed
  with assms show False by simp
qed


subsection \<open>Invariants\<close>

lemma map_item_add_child: "map item (add_child ns par c) = map item ns"
proof (cases "par < length ns")
  case True
  then show ?thesis by (simp add: add_child_def map_update list_update_same_conv)
next
  case False
  then have "length ns \<le> par" by simp
  then show ?thesis by (simp add: add_child_def list_update_beyond)
qed


lemma length_add_child: "length (add_child ns par c) = length ns"
  by (simp add: add_child_def)

lemma children_add_child:
  "i < length ns \<Longrightarrow>
     children (add_child ns par c ! i) = (if i = par then children (ns ! i) @ [c] else children (ns ! i))"
  by (simp add: add_child_def nth_list_update)

lemma in_tree_mono:
  assumes "in_tree ns r i"
    and "length ns \<le> length ns'"
    and "\<And>j. j < length ns \<Longrightarrow> set (children (ns ! j)) \<subseteq> set (children (ns' ! j))"
  shows "in_tree ns' r i"
  using assms(1)
proof (induction rule: in_tree.induct)
  case in_tree_root
  show ?case by (rule in_tree.in_tree_root)
next
  case (in_tree_child i c)
  from in_tree_child.hyps(2) assms(2) have "i < length ns'" by simp
  moreover from in_tree_child.hyps(2,3) assms(3) have "c \<in> set (children (ns' ! i))" by blast
  ultimately show ?case using in_tree_child.IH by (rule in_tree.in_tree_child [rotated])
qed

lemma tree_inv_visit:
  assumes inv: "tree_inv a st" and par: "par < length (nodes st)"
  shows "tree_inv a (visit par st p)"
proof -
  let ?ns = "nodes st"
  let ?c = "length ?ns"
  let ?ns1 = "?ns @ [\<lparr> item = p, children = [] \<rparr>]"
  let ?ns' = "add_child ?ns1 par ?c"
  have ns': "nodes (visit par st p) = ?ns'" by (simp add: visit_simps)
  have len: "length ?ns' = Suc ?c" by (simp add: length_add_child)
  have items: "map item ?ns' = map item ?ns @ [p]" by (simp add: map_item_add_child)
  from inv have ne: "?ns \<noteq> []" and root: "item (?ns ! 0) = a"
    and all: "\<forall>i<?c. in_tree ?ns 0 i" and stk: "\<forall>e\<in>set (stack st). fst e < ?c"
    and its: "item ` set ?ns = insert a (seen st)"
    by (simp_all add: tree_inv_def)
  have ch: "set (children (?ns ! j)) \<subseteq> set (children (?ns' ! j))" if "j < ?c" for j
    using that by (auto simp: children_add_child nth_append)
  have old: "in_tree ?ns' 0 i" if "i < ?c" for i
  proof (rule in_tree_mono [where ns = ?ns])
    show "in_tree ?ns 0 i" using all that by simp
    show "length ?ns \<le> length ?ns'" using len by simp
    show "\<And>j. j < length ?ns \<Longrightarrow> set (children (?ns ! j)) \<subseteq> set (children (?ns' ! j))"
      by (rule ch)
  qed
  have new: "in_tree ?ns' 0 ?c"
  proof (rule in_tree_child)
    show "in_tree ?ns' 0 par" using old par by simp
    show "par < length ?ns'" using par len by simp
    show "?c \<in> set (children (?ns' ! par))"
      using par by (simp add: children_add_child)
  qed
  have "item (?ns' ! 0) = map item ?ns' ! 0"
    using len by (simp del: map_append)
  also have "\<dots> = a" using ne root by (simp add: items nth_append)
  finally have root': "item (?ns' ! 0) = a" .
  have "item ` set ?ns' = set (map item ?ns')" by simp
  also have "\<dots> = insert p (item ` set ?ns)" by (simp add: items)
  finally have its': "item ` set ?ns' = insert a (seen (visit par st p))"
    using its by (auto simp: visit_simps)
  have all': "\<forall>i<length ?ns'. in_tree ?ns' 0 i"
    using old new len by (auto simp: less_Suc_eq)
  have stk': "\<forall>e\<in>set (stack (visit par st p)). fst e < length ?ns'"
    using stk len by (auto simp: visit_simps)
  have "?ns' \<noteq> []" using len by auto
  with root' all' stk' its' show ?thesis
    unfolding tree_inv_def ns' by blast
qed

lemma tree_inv_visit_all:
  "tree_inv a st \<Longrightarrow> par < length (nodes st) \<Longrightarrow> tree_inv a (visit_all par st ps)"
proof (induction ps arbitrary: st)
  case Nil
  then show ?case by simp
next
  case (Cons p ps)
  have "tree_inv a (visit par st p)"
    using Cons.prems by (rule tree_inv_visit)
  moreover have "par < length (nodes (visit par st p))"
    using Cons.prems(2) by (simp add: visit_simps length_add_child)
  ultimately show ?case using Cons.IH by simp
qed

lemma tree_inv_pop:
  assumes "tree_inv a st" and "stack st = stk @ [(par, n)]"
  shows "tree_inv a (st\<lparr>stack := stk\<rparr>) \<and> par < length (nodes st)"
  using assms by (auto simp: tree_inv_def)

lemma transitive_predecessors_step:
  assumes "n \<in> insert a (transitive_predecessors g a)" and "(p, n) \<in> pred_rel g"
  shows "p \<in> transitive_predecessors g a"
  using assms by (auto simp: transitive_predecessors_def intro: trancl_into_trancl2)

lemma closure_inv_step:
  assumes inv: "closure_inv g a st"
    and st: "stack st = stk @ [(par, n)]"
    and preds: "predecessors_iter g n = Inr preds"
  shows "closure_inv g a (visit_all par (st\<lparr>stack := stk\<rparr>) preds)"
proof -
  let ?st' = "visit_all par (st\<lparr>stack := stk\<rparr>) preds"
  let ?T = "transitive_predecessors g a"
  have seen': "seen ?st' = seen st \<union> set preds" by (simp add: seen_visit_all)
  have atoms': "snd ` set (stack ?st') = snd ` set stk \<union> set preds"
    by (simp add: stack_atoms_visit_all)
  from inv have i1: "seen st \<subseteq> ?T"
    and i2: "snd ` set (stack st) \<subseteq> insert a ?T"
    and i3: "\<forall>x\<in>insert a (seen st).
        x \<in> snd ` set (stack st) \<or> (\<forall>p. (p, x) \<in> pred_rel g \<longrightarrow> p \<in> seen st)"
    by (simp_all add: closure_inv_def)
  from i2 st have n: "n \<in> insert a ?T" by auto
  have sub: "set preds \<subseteq> ?T"
    using transitive_predecessors_step [OF n] preds by (auto simp: predecessors_iter_edge)
  have c1: "seen ?st' \<subseteq> ?T" using i1 sub seen' by auto
  have c2: "snd ` set (stack ?st') \<subseteq> insert a ?T" using i2 st sub atoms' by auto
  have c3: "x \<in> snd ` set (stack ?st') \<or> (\<forall>p. (p, x) \<in> pred_rel g \<longrightarrow> p \<in> seen ?st')"
    if x: "x \<in> insert a (seen ?st')" for x
  proof (cases "x \<in> set preds")
    case True
    then show ?thesis using atoms' by simp
  next
    case False
    with x seen' have "x \<in> insert a (seen st)" by auto
    with i3 have "x \<in> snd ` set (stack st) \<or> (\<forall>p. (p, x) \<in> pred_rel g \<longrightarrow> p \<in> seen st)"
      by blast
    then consider "x \<in> snd ` set stk" | "x = n"
      | "\<forall>p. (p, x) \<in> pred_rel g \<longrightarrow> p \<in> seen st"
      using st by auto
    then show ?thesis
    proof cases
      case 1
      then show ?thesis using atoms' by simp
    next
      case 2
      then show ?thesis using preds seen' by (simp add: predecessors_iter_edge)
    next
      case 3
      then show ?thesis using seen' by simp
    qed
  qed
  from c1 c2 c3 show ?thesis unfolding closure_inv_def by blast
qed

lemma graph_ok_pred:
  assumes "graph_ok g" and "(p, n) \<in> pred_rel g"
  shows "p \<in> graph_nodes g"
proof -
  from assms(2) obtain preds where "map_of g n = Some preds" "p \<in> set preds"
    by (auto simp: pred_rel_def)
  then have "(n, preds) \<in> set g" by (auto dest: map_of_SomeD)
  with assms(1) \<open>p \<in> set preds\<close> show ?thesis
    by (auto simp: graph_ok_def list_all_iff)
qed

lemma graph_ok_reached:
  assumes "graph_ok g" and "a \<in> graph_nodes g"
    and "n \<in> insert a (transitive_predecessors g a)"
  shows "\<exists>preds. predecessors_iter g n = Inr preds"
proof -
  have "n \<in> graph_nodes g"
  proof (cases "n = a")
    case True
    with assms(2) show ?thesis by simp
  next
    case False
    with assms(3) have "(n, a) \<in> (pred_rel g)\<^sup>+" by (simp add: transitive_predecessors_def)
    then obtain m where "(n, m) \<in> pred_rel g" by (auto dest: tranclD)
    with assms(1) show ?thesis by (rule graph_ok_pred)
  qed
  then have "n \<in> dom (map_of g)"
    by (simp add: graph_nodes_def dom_map_of_conv_image_fst)
  then show ?thesis by (auto simp: predecessors_iter_def)
qed

lemma walk_loop_invariant:
  assumes run: "walk_loop g st = Some y"
    and ok: "graph_ok g" "a \<in> graph_nodes g"
    and inv: "tree_inv a st" "closure_inv g a st"
  shows "\<exists>st'. y = Inr st' \<and> stack st' = [] \<and> tree_inv a st' \<and> closure_inv g a st'"
proof -
  have "graph_ok g \<and> a \<in> graph_nodes g \<and> tree_inv a st \<and> closure_inv g a st \<longrightarrow>
      (\<exists>st'. y = Inr st' \<and> stack st' = [] \<and> tree_inv a st' \<and> closure_inv g a st')"
  proof (rule walk_loop.raw_induct
      [where P = "\<lambda>graph st y.
          graph_ok graph \<and> a \<in> graph_nodes graph \<and> tree_inv a st \<and> closure_inv graph a st \<longrightarrow>
          (\<exists>st'. y = Inr st' \<and> stack st' = [] \<and> tree_inv a st' \<and> closure_inv graph a st')",
        OF _ run])
    fix f :: "'a graph \<Rightarrow> 'a walk \<Rightarrow> (exn + 'a walk) option" and graph st y
    assume IH: "\<And>graph st y. f graph st = Some y \<Longrightarrow>
        graph_ok graph \<and> a \<in> graph_nodes graph \<and> tree_inv a st \<and> closure_inv graph a st \<longrightarrow>
        (\<exists>st'. y = Inr st' \<and> stack st' = [] \<and> tree_inv a st' \<and> closure_inv graph a st')"
      and body: "(if stack st = [] then Some (Inr st)
        else case last (stack st) of
           (parent, node) \<Rightarrow>
             case predecessors_iter graph node of Inl e \<Rightarrow> Some (Inl e)
             | Inr preds \<Rightarrow>
                 f graph (visit_all parent (st\<lparr>stack := butlast (stack st)\<rparr>) preds)) = Some y"
    show "graph_ok graph \<and> a \<in> graph_nodes graph \<and> tree_inv a st \<and> closure_inv graph a st \<longrightarrow>
        (\<exists>st'. y = Inr st' \<and> stack st' = [] \<and> tree_inv a st' \<and> closure_inv graph a st')"
    proof
      assume a: "graph_ok graph \<and> a \<in> graph_nodes graph \<and> tree_inv a st \<and> closure_inv graph a st"
      show "\<exists>st'. y = Inr st' \<and> stack st' = [] \<and> tree_inv a st' \<and> closure_inv graph a st'"
      proof (cases "stack st" rule: rev_cases)
        case Nil
        with body a show ?thesis by auto
      next
        case (snoc stk e)
        obtain par n where e: "e = (par, n)" by (cases e)
        with snoc have st: "stack st = stk @ [(par, n)]" by simp
        from a have ok': "graph_ok graph" "a \<in> graph_nodes graph"
          and ti: "tree_inv a st" and ci: "closure_inv graph a st"
          by simp_all
        from ci st have n: "n \<in> insert a (transitive_predecessors graph a)"
          by (auto simp: closure_inv_def)
        from graph_ok_reached [OF ok' n]
        obtain preds where preds: "predecessors_iter graph n = Inr preds" ..
        let ?st1 = "visit_all par (st\<lparr>stack := stk\<rparr>) preds"
        from body st preds have nxt: "f graph ?st1 = Some y" by simp
        from tree_inv_pop [OF ti st]
        have "tree_inv a (st\<lparr>stack := stk\<rparr>)" "par < length (nodes (st\<lparr>stack := stk\<rparr>))"
          by simp_all
        then have t: "tree_inv a ?st1" by (rule tree_inv_visit_all)
        from closure_inv_step [OF ci st preds] have c: "closure_inv graph a ?st1" .
        from IH [OF nxt] a t c show ?thesis by blast
      qed
    qed
  qed
  with ok inv show ?thesis by blast
qed


subsection \<open>The result\<close>

lemma tree_items_all:
  assumes "\<forall>i<length ns. in_tree ns 0 i"
  shows "tree_items ns 0 = item ` set ns"
  using assms by (auto simp: tree_items_def set_conv_nth)

lemma closure_inv_final:
  assumes "closure_inv g a st" and "stack st = []"
  shows "seen st = transitive_predecessors g a"
proof
  from assms(1) show "seen st \<subseteq> transitive_predecessors g a"
    by (simp add: closure_inv_def)
  from assms have closed: "\<forall>x\<in>insert a (seen st). \<forall>p. (p, x) \<in> pred_rel g \<longrightarrow> p \<in> seen st"
    by (simp add: closure_inv_def)
  show "transitive_predecessors g a \<subseteq> seen st"
  proof
    fix p
    assume "p \<in> transitive_predecessors g a"
    then have "(p, a) \<in> (pred_rel g)\<^sup>+" by (simp add: transitive_predecessors_def)
    then show "p \<in> seen st"
    proof (induction rule: converse_trancl_induct)
      case (base y)
      with closed show ?case by blast
    next
      case (step y z)
      with closed show ?case by blast
    qed
  qed
qed

lemma initial_invariants:
  "tree_inv a \<lparr> nodes = [\<lparr> item = a, children = [] \<rparr>], stack = [(0, a)], seen = {} \<rparr>"
  "closure_inv g a \<lparr> nodes = [\<lparr> item = a, children = [] \<rparr>], stack = [(0, a)], seen = {} \<rparr>"
  by (simp_all add: tree_inv_def closure_inv_def in_tree_root)

lemma walk_from_root:
  assumes "acyclic (pred_rel g)" and "graph_ok g" and "a \<in> graph_nodes g"
  shows "\<exists>st'. walk_loop g \<lparr> nodes = [\<lparr> item = a, children = [] \<rparr>], stack = [(0, a)], seen = {} \<rparr>
        = Some (Inr st')
     \<and> stack st' = [] \<and> tree_inv a st' \<and> closure_inv g a st'"
proof -
  let ?st0 = "\<lparr> nodes = [\<lparr> item = a, children = [] \<rparr>], stack = [(0, a)], seen = {} \<rparr>"
  from walk_loop_terminates [OF assms(1), of ?st0]
  obtain y where y: "walk_loop g ?st0 = Some y" by auto
  from walk_loop_invariant [OF y assms(2,3) initial_invariants] y
  show ?thesis by auto
qed

lemma acyclic_not_own_predecessor:
  "acyclic (pred_rel g) \<Longrightarrow> a \<notin> transitive_predecessors g a"
  by (auto simp: acyclic_def transitive_predecessors_def)

text \<open>
  C5. For an acyclic graph \<open>g\<close> whose predecessors are all nodes, and an atom \<open>a\<close>
  of \<open>g\<close>, \<^verbatim>\<open>_fetch_predecessor_tree(g, a)\<close> returns \<open>(count, root)\<close>:
  the root's item is \<open>a\<close>; \<open>count\<close> is the number of distinct transitive
  predecessors of \<open>a\<close>, which do not include \<open>a\<close>; every transitive predecessor of
  \<open>a\<close> is the item of a node of the returned tree, whose items are exactly \<open>a\<close>
  and its transitive predecessors.
\<close>

theorem fetch_predecessor_tree_correct:
  assumes "acyclic (pred_rel g)" and "graph_ok g" and "a \<in> graph_nodes g"
  shows "\<exists>ns. fetch_predecessor_tree g a
        = Some (Inr (card (transitive_predecessors g a), 0, ns))
     \<and> ns \<noteq> [] \<and> item (ns ! 0) = a
     \<and> transitive_predecessors g a \<subseteq> tree_items ns 0
     \<and> tree_items ns 0 = insert a (transitive_predecessors g a)
     \<and> a \<notin> transitive_predecessors g a"
proof -
  from walk_from_root [OF assms] obtain st' where
    run: "walk_loop g \<lparr> nodes = [\<lparr> item = a, children = [] \<rparr>], stack = [(0, a)], seen = {} \<rparr>
        = Some (Inr st')"
    and fin: "stack st' = []" and t: "tree_inv a st'" and c: "closure_inv g a st'"
    by blast
  have seen: "seen st' = transitive_predecessors g a"
    using c fin by (rule closure_inv_final)
  from t have "tree_items (nodes st') 0 = item ` set (nodes st')"
    by (simp add: tree_inv_def tree_items_all)
  with t seen have items: "tree_items (nodes st') 0 = insert a (transitive_predecessors g a)"
    by (simp add: tree_inv_def)
  have res: "fetch_predecessor_tree g a
      = Some (Inr (card (transitive_predecessors g a), 0, nodes st'))"
    using run seen by (simp add: fetch_predecessor_tree_def new_node_def)
  from t have "nodes st' \<noteq> []" "item (nodes st' ! 0) = a"
    by (simp_all add: tree_inv_def)
  with res items acyclic_not_own_predecessor [OF assms(1), of a] show ?thesis
    by blast
qed

lemma acyclic_diamond: "acyclic (pred_rel diamond)"
proof (rule acyclic_subset [OF wf_acyclic [OF wf_less_than]])
  show "pred_rel diamond \<subseteq> less_than"
    by (auto simp: pred_rel_def diamond_def split: if_splits)
qed

lemma not_acyclic_self_loop: "\<not> acyclic (pred_rel self_loop)"
proof -
  have "(0, 0) \<in> pred_rel self_loop"
    by (simp add: pred_rel_def self_loop_def)
  then have "(0, 0) \<in> (pred_rel self_loop)\<^sup>+" by (rule r_into_trancl)
  then show ?thesis by (auto simp: acyclic_def)
qed

theorem fetch_predecessor_tree_correct_witness:
  "acyclic (pred_rel diamond) \<and> graph_ok diamond \<and> 3 \<in> graph_nodes diamond
   \<and> fetch_predecessor_tree diamond 3 =
       Some (Inr (3, 0,
         [\<lparr>item = 3, children = [1]\<rparr>, \<lparr>item = 2, children = [2, 3]\<rparr>,
          \<lparr>item = 0, children = []\<rparr>, \<lparr>item = 1, children = [4]\<rparr>,
          \<lparr>item = 0, children = []\<rparr>]))
   \<and> card (transitive_predecessors diamond 3) = 3"
proof -
  have ok: "graph_ok diamond" "3 \<in> graph_nodes diamond"
    by (simp_all add: graph_ok_def graph_nodes_def diamond_def)
  have run: "fetch_predecessor_tree diamond 3 =
       Some (Inr (3, 0,
         [\<lparr>item = 3, children = [1]\<rparr>, \<lparr>item = 2, children = [2, 3]\<rparr>,
          \<lparr>item = 0, children = []\<rparr>, \<lparr>item = 1, children = [4]\<rparr>,
          \<lparr>item = 0, children = []\<rparr>]))"
    by code_simp
  from fetch_predecessor_tree_correct [OF acyclic_diamond ok] run
  have "card (transitive_predecessors diamond 3) = 3" by auto
  with acyclic_diamond ok run show ?thesis by simp
qed

text \<open>
  C7. On an acyclic graph \<^verbatim>\<open>_fetch_predecessor_tree(graph, atom)\<close> terminates,
  for every atom: it returns or raises; for an atom of a graph whose predecessors are
  all nodes, the loop ends with an empty work stack. Without acyclicity the loop need
  not terminate: on the graph with one node and an edge from it to itself the function
  never returns.
\<close>

theorem fetch_predecessor_tree_terminates:
  "(acyclic (pred_rel g) \<longrightarrow> (\<exists>r. fetch_predecessor_tree g a = Some r))
   \<and> (acyclic (pred_rel g) \<and> graph_ok g \<and> a \<in> graph_nodes g \<longrightarrow>
        (\<exists>st'. walk_loop g \<lparr> nodes = [\<lparr> item = a, children = [] \<rparr>], stack = [(0, a)],
                            seen = {} \<rparr> = Some (Inr st')
           \<and> stack st' = []))
   \<and> graph_ok self_loop \<and> 0 \<in> graph_nodes self_loop \<and> \<not> acyclic (pred_rel self_loop)
   \<and> fetch_predecessor_tree self_loop 0 = None"
proof (intro conjI impI)
  assume "acyclic (pred_rel g)"
  from walk_loop_terminates [OF this,
      of "\<lparr> nodes = [\<lparr> item = a, children = [] \<rparr>], stack = [(0, a)], seen = {} \<rparr>"]
  show "\<exists>r. fetch_predecessor_tree g a = Some r"
    by (auto simp: fetch_predecessor_tree_def new_node_def split: option.splits sum.splits)
next
  assume "acyclic (pred_rel g) \<and> graph_ok g \<and> a \<in> graph_nodes g"
  then show "\<exists>st'. walk_loop g \<lparr> nodes = [\<lparr> item = a, children = [] \<rparr>], stack = [(0, a)],
                            seen = {} \<rparr> = Some (Inr st')
           \<and> stack st' = []"
    using walk_from_root [of g a] by blast
next
  show "graph_ok self_loop" "0 \<in> graph_nodes self_loop"
    by (simp_all add: graph_ok_def graph_nodes_def self_loop_def)
  show "\<not> acyclic (pred_rel self_loop)" by (rule not_acyclic_self_loop)
  have "walk_loop self_loop \<lparr> nodes = [\<lparr> item = 0, children = [] \<rparr>], stack = [(0, 0)],
      seen = {} \<rparr> = None"
    by (rule self_loop_diverges) simp_all
  then show "fetch_predecessor_tree self_loop 0 = None"
    by (simp add: fetch_predecessor_tree_def new_node_def)
qed

theorem fetch_predecessor_tree_terminates_witness:
  "acyclic (pred_rel diamond) \<and> graph_ok diamond \<and> 2 \<in> graph_nodes diamond
   \<and> (\<exists>r. fetch_predecessor_tree diamond 2 = Some r)
   \<and> (\<exists>st'. walk_loop diamond \<lparr> nodes = [\<lparr> item = 2, children = [] \<rparr>], stack = [(0, 2)],
                            seen = {} \<rparr> = Some (Inr st')
           \<and> stack st' = [])
   \<and> fetch_predecessor_tree self_loop 0 = None"
proof -
  have ok: "graph_ok diamond" "2 \<in> graph_nodes diamond"
    by (simp_all add: graph_ok_def graph_nodes_def diamond_def)
  from fetch_predecessor_tree_terminates [of diamond 2] acyclic_diamond ok
  show ?thesis by blast
qed

section \<open>Properties of _derive_endpoints\<close>

lemma split_on_nonempty: "split_on sep s \<noteq> []"
  by (induction s) (auto split: list.splits)

lemma length_split_on: "length (split_on sep s) = Suc (count_list s sep)"
  by (induction s) (auto split: list.splits simp: split_on_nonempty)

lemma split_on_no_sep: "sep \<notin> set s \<Longrightarrow> split_on sep s = [s]"
  by (induction s) auto

lemma split_on_once:
  "count_list s sep = 1 \<Longrightarrow>
     split_on sep s = [takeWhile (\<lambda>c. c \<noteq> sep) s, tl (dropWhile (\<lambda>c. c \<noteq> sep) s)]"
proof (induction s)
  case Nil
  then show ?case by simp
next
  case (Cons c cs)
  show ?case
  proof (cases "c = sep")
    case True
    with Cons.prems have "count_list cs sep = 0" by simp
    then have "sep \<notin> set cs" by (simp add: count_list_0_iff)
    with True show ?thesis by (simp add: split_on_no_sep)
  next
    case False
    with Cons.prems have "count_list cs sep = 1" by simp
    from Cons.IH [OF this] False show ?thesis by simp
  qed
qed

lemma unpack_pair_split:
  "unpack_pair (split_on sep s) =
     (if count_list s sep = 1
      then Inr (takeWhile (\<lambda>c. c \<noteq> sep) s, tl (dropWhile (\<lambda>c. c \<noteq> sep) s))
      else Inl ValueError)"
proof (cases "count_list s sep = 1")
  case True
  then show ?thesis by (simp add: split_on_once unpack_pair_def)
next
  case False
  then have "length (split_on sep s) \<noteq> 2" by (simp add: length_split_on)
  then have "unpack_pair (split_on sep s) = Inl ValueError"
    by (auto simp: unpack_pair_def split: list.splits)
  with False show ?thesis by simp
qed


lemma set_add_set: "set (set_add x xs) = insert x (set xs)"
  by (auto simp: set_add_def)

lemma set_add_distinct: "distinct xs \<Longrightarrow> distinct (set_add x xs)"
  by (simp add: set_add_def)

lemma derive_members_set:
  "set (derive_members env d ms) = set d \<union> set (filter (is_subclass env) (map snd ms))"
proof (induction ms arbitrary: d)
  case Nil
  show ?case by simp
next
  case (Cons m ms)
  obtain n obj where m: "m = (n, obj)" by (cases m)
  show ?case unfolding m by (auto simp: Cons.IH set_add_set)
qed

lemma derive_members_distinct:
  "distinct d \<Longrightarrow> distinct (derive_members env d ms)"
  by (induction ms arbitrary: d) (auto simp: set_add_distinct)

lemma derive_item_raises:
  "item_tasks env task_item = Inl e \<Longrightarrow> derive_item env d task_item = Inl e"
  by (cases task_item)
    (auto simp: item_tasks_def derive_item_def unpack_pair_split
      split: sum.splits if_splits)

lemma derive_item_returns:
  assumes "item_tasks env task_item = Inr ts"
  shows "\<exists>d'. derive_item env d task_item = Inr d' \<and> (distinct d \<longrightarrow> distinct d')
     \<and> set d' = set d \<union> set ts"
proof (cases task_item)
  case (Str s)
  show ?thesis
  proof (cases "count_list s CHR '':'' = 1")
    case True
    with assms Str show ?thesis
      by (auto simp: item_tasks_def derive_item_def unpack_pair_split set_add_set
          set_add_distinct split: sum.splits if_splits)
  next
    case False
    with assms Str obtain m where m: "import_module env s = Inr m" "ts = members_tasks env m"
      by (auto simp: item_tasks_def split: sum.splits)
    with False Str have "derive_item env d task_item = Inr (derive_members env d (getmembers env m))"
      by (simp add: derive_item_def unpack_pair_split)
    with m(2) show ?thesis
      by (simp add: derive_members_set derive_members_distinct members_tasks_def)
  qed
next
  case (Module m)
  with assms have "ts = members_tasks env m" by (simp add: item_tasks_def)
  moreover from Module
  have "derive_item env d task_item = Inr (derive_members env d (getmembers env m))"
    by (simp add: derive_item_def)
  ultimately show ?thesis
    by (simp add: derive_members_set derive_members_distinct members_tasks_def)
next
  case (Class c)
  with assms show ?thesis
    by (auto simp: item_tasks_def derive_item_def set_add_set set_add_distinct
        split: if_splits)
next
  case Object
  with assms show ?thesis
    by (auto simp: item_tasks_def derive_item_def set_add_set set_add_distinct
        split: if_splits)
qed

lemma derive_loop_raises:
  "all_tasks env tasks = Inl e \<Longrightarrow> derive_loop env d tasks = Inl e"
proof (induction tasks arbitrary: d)
  case Nil
  then show ?case by simp
next
  case (Cons task_item tasks)
  show ?case
  proof (cases "item_tasks env task_item")
    case (Inl e')
    with Cons.prems have "e' = e" by simp
    with Inl show ?thesis by (simp add: derive_item_raises)
  next
    case (Inr ts)
    with Cons.prems have rest: "all_tasks env tasks = Inl e"
      by (simp split: sum.splits)
    from derive_item_returns [OF Inr, of d] obtain d' where
      "derive_item env d task_item = Inr d'" by blast
    with Cons.IH [OF rest, of d'] show ?thesis by simp
  qed
qed

lemma derive_loop_returns:
  "all_tasks env tasks = Inr ts \<Longrightarrow>
     \<exists>d'. derive_loop env d tasks = Inr d' \<and> (distinct d \<longrightarrow> distinct d')
       \<and> set d' = set d \<union> set ts"
proof (induction tasks arbitrary: d ts)
  case Nil
  then show ?case by simp
next
  case (Cons task_item tasks)
  from Cons.prems obtain ts1 ts2 where
    one: "item_tasks env task_item = Inr ts1" and rest: "all_tasks env tasks = Inr ts2"
    and ts: "ts = ts1 @ ts2"
    by (auto split: sum.splits)
  from derive_item_returns [OF one, of d] obtain d1 where
    d1: "derive_item env d task_item = Inr d1" "distinct d \<longrightarrow> distinct d1"
      "set d1 = set d \<union> set ts1"
    by blast
  from Cons.IH [OF rest, of d1] obtain d2 where
    d2: "derive_loop env d1 tasks = Inr d2" "distinct d1 \<longrightarrow> distinct d2"
      "set d2 = set d1 \<union> set ts2"
    by blast
  from d1 d2 ts have "derive_loop env d (task_item # tasks) = Inr d2
      \<and> (distinct d \<longrightarrow> distinct d2) \<and> set d2 = set d \<union> set ts"
    by auto
  then show ?case by blast
qed

text \<open>
  C4, as amended. \<^verbatim>\<open>Worker._derive_endpoints(tasks)\<close> returns one Endpoint per
  distinct derived task class, where: a string item with exactly one colon is imported
  as a class and raises \<^verbatim>\<open>TypeError\<close> unless it is a \<^verbatim>\<open>BaseTask\<close>
  subclass; any other string item, with no colon or with several, is imported as a
  module; a module item contributes every member that is a \<^verbatim>\<open>BaseTask\<close>
  subclass; an item that is itself such a subclass contributes itself; any other item
  raises \<^verbatim>\<open>TypeError\<close>; the first item that raises decides the exception; and a
  class reached through several items yields one Endpoint.
\<close>

theorem derive_endpoints_one_colon_class:
  "(all_tasks env tasks = Inl e \<longrightarrow> derive_endpoints env tasks = Inl e)
   \<and> (all_tasks env tasks = Inr ts \<longrightarrow>
        (\<exists>endpoints. derive_endpoints env tasks = Inr endpoints
           \<and> distinct endpoints \<and> set endpoints = Endpoint ` set ts
           \<and> length endpoints = card (set ts)))"
proof (intro conjI impI)
  assume "all_tasks env tasks = Inl e"
  then show "derive_endpoints env tasks = Inl e"
    by (simp add: derive_endpoints_def derive_loop_raises)
next
  assume "all_tasks env tasks = Inr ts"
  from derive_loop_returns [OF this, of "[]"] obtain d where
    d: "derive_loop env [] tasks = Inr d" "distinct d" "set d = set ts"
    by auto
  have "distinct (map Endpoint d)"
    using d(2) by (simp add: distinct_map inj_on_def)
  moreover have "length (map Endpoint d) = card (set ts)"
    using d(2,3) by (simp add: distinct_card [symmetric])
  ultimately show "\<exists>endpoints. derive_endpoints env tasks = Inr endpoints
           \<and> distinct endpoints \<and> set endpoints = Endpoint ` set ts
           \<and> length endpoints = card (set ts)"
    using d(1,3) by (simp add: derive_endpoints_def)
qed

theorem derive_endpoints_one_colon_class_witness:
  "all_tasks example_loader [Str ''pkg.mod:Task'', Class 2, Module 0, Str ''pkg.mod'']
     = Inr [Class 1, Class 2, Class 0, Class 1, Class 2, Class 0, Class 1, Class 2]
   \<and> derive_endpoints example_loader [Str ''pkg.mod:Task'', Class 2, Module 0, Str ''pkg.mod'']
     = Inr [Endpoint (Class 1), Endpoint (Class 2), Endpoint (Class 0)]
   \<and> all_tasks example_loader [Class 1, Str ''pkg.mod:Helper'', Object] = Inl ImportError
   \<and> derive_endpoints example_loader [Class 1, Str ''pkg.mod:Helper'', Object] = Inl ImportError
   \<and> all_tasks example_loader [Class 1, Class 5] = Inl TypeError
   \<and> derive_endpoints example_loader [Class 1, Class 5] = Inl TypeError"
proof -
  have a: "all_tasks example_loader [Str ''pkg.mod:Task'', Class 2, Module 0, Str ''pkg.mod'']
     = Inr [Class 1, Class 2, Class 0, Class 1, Class 2, Class 0, Class 1, Class 2]"
    by (simp add: item_tasks_def example_loader_def members_tasks_def is_subclass_def)
  have b: "all_tasks example_loader [Class 1, Str ''pkg.mod:Helper'', Object] = Inl ImportError"
    by (simp add: item_tasks_def example_loader_def members_tasks_def is_subclass_def)
  have c: "all_tasks example_loader [Class 1, Class 5] = Inl TypeError"
    by (simp add: item_tasks_def example_loader_def members_tasks_def is_subclass_def)
  have r: "derive_endpoints example_loader
      [Str ''pkg.mod:Task'', Class 2, Module 0, Str ''pkg.mod'']
     = Inr [Endpoint (Class 1), Endpoint (Class 2), Endpoint (Class 0)]"
    by (simp add: derive_endpoints_def derive_item_def unpack_pair_def set_add_def
        example_loader_def is_subclass_def)
  from derive_endpoints_one_colon_class
    [of example_loader "[Class 1, Str ''pkg.mod:Helper'', Object]" ImportError] b
  have rb: "derive_endpoints example_loader [Class 1, Str ''pkg.mod:Helper'', Object]
      = Inl ImportError"
    by blast
  from derive_endpoints_one_colon_class [of example_loader "[Class 1, Class 5]" TypeError] c
  have rc: "derive_endpoints example_loader [Class 1, Class 5] = Inl TypeError"
    by blast
  from a b c r rb rc show ?thesis by simp
qed

text \<open>
  C4 as stated fails: the string \<^verbatim>\<open>a:b:c\<close> contains a colon, and it is imported
  as a module. Here the loader can import no class, and the one string item yields the
  two task classes of the module.
\<close>

theorem derive_endpoints_colons_counterexample:
  "CHR '':'' \<in> set ''a:b:c''
   \<and> import_class module_only_loader ''a.b:c'' = Inl ImportError
   \<and> import_class module_only_loader ''a:b.c'' = Inl ImportError
   \<and> derive_endpoints module_only_loader [Str ''a:b:c'']
       = Inr [Endpoint (Class 0), Endpoint (Class 1)]"
  by (simp add: derive_endpoints_def derive_item_def unpack_pair_def set_add_def
      module_only_loader_def is_subclass_def)

section \<open>The hello-world scenario\<close>


end
